theory Spec2Isabelle
  imports Complex_Main "HOL-Library.Multiset"
begin

section \<open>Numbers and the runtime\<close>

text \<open>
  The dashboard of \<^verbatim>\<open>src/app/page.tsx\<close> computes on JavaScript numbers. A finite
  number is modelled as a \<^typ>\<open>real\<close>. The outcome generator and \<^verbatim>\<open>toFixed\<close> are modelled
  on exact values; the arithmetic of the statistics engine, where the rounding of an
  operation can decide the second decimal of a result, is a parameter of the model. The
  values that are not finite appear only as results of \<^verbatim>\<open>parseFloat\<close>.
\<close>

datatype number = NaN | Infinity | NegInfinity | Num real

text \<open>The comparisons \<^verbatim>\<open>x >= y\<close> and \<^verbatim>\<open>x <= y\<close> with a finite right-hand side.\<close>

fun num_ge :: "number \<Rightarrow> real \<Rightarrow> bool" where
  "num_ge NaN y = False"
| "num_ge Infinity y = True"
| "num_ge NegInfinity y = False"
| "num_ge (Num x) y = (x \<ge> y)"

fun num_le :: "number \<Rightarrow> real \<Rightarrow> bool" where
  "num_le NaN y = False"
| "num_le Infinity y = False"
| "num_le NegInfinity y = True"
| "num_le (Num x) y = (x \<le> y)"

text \<open>
  \<^verbatim>\<open>parseFloat(x.toFixed(2))\<close>: \<^verbatim>\<open>toFixed\<close> takes the sign off, prints a magnitude of
  at least \<open>10^21\<close> as it is, and otherwise picks the integer \<open>n\<close> with \<open>n / 100\<close> closest
  to the magnitude, the larger one of two.
\<close>

definition toFixed2 :: "real \<Rightarrow> real" where
  "toFixed2 x =
     (if 10 ^ 21 \<le> \<bar>x\<bar> then x
      else if x < 0 then - (real_of_int \<lfloor>(- x) * 100 + 1 / 2\<rfloor> / 100)
      else real_of_int \<lfloor>x * 100 + 1 / 2\<rfloor> / 100)"

text \<open>
  What the component takes from its environment: the values that successive calls of
  \<^verbatim>\<open>Math.random()\<close> return, the values that successive readings of the clock
  (\<^verbatim>\<open>Date.now()\<close>, \<^verbatim>\<open>new Date()\<close>) return, in milliseconds, and \<^verbatim>\<open>parseFloat\<close>.
\<close>

record runtime =
  Math_random :: "nat \<Rightarrow> real"
  Date_now :: "nat \<Rightarrow> int"
  parseFloat :: "string \<Rightarrow> number"

text \<open>
  The operations on numbers that \<^verbatim>\<open>calculateStatistics\<close> uses: \<^verbatim>\<open>+\<close>, \<^verbatim>\<open>-\<close>, \<^verbatim>\<open>/\<close>,
  \<^verbatim>\<open>Math.pow\<close> and \<^verbatim>\<open>Math.sqrt\<close>. They are operations of the JavaScript engine, in double
  precision, and are parameters of the model.
\<close>

record arithmetic =
  num_add :: "real \<Rightarrow> real \<Rightarrow> real"
  num_sub :: "real \<Rightarrow> real \<Rightarrow> real"
  num_div :: "real \<Rightarrow> real \<Rightarrow> real"
  Math_pow :: "real \<Rightarrow> real \<Rightarrow> real"
  Math_sqrt :: "real \<Rightarrow> real"

section \<open>Data model\<close>

record CrashPoint =
  id_num :: int
  multiplier :: real
  timestamp :: int

record Statistics =
  averageMultiplier :: real
  medianMultiplier :: real
  maxMultiplier :: real
  minMultiplier :: real
  volatility :: real
  crashesBelow2x :: nat
  crashesAbove5x :: nat
  crashesAbove10x :: nat

text \<open>
  The state of the component, with the number of calls of \<^verbatim>\<open>Math.random()\<close> and of
  clock readings made so far. The fourth state variable, \<^verbatim>\<open>statistics\<close>, is set by the
  effect hook to \<^verbatim>\<open>calculateStatistics()\<close> whenever the history changes.
\<close>

record app_state =
  crashHistory :: "CrashPoint list"
  inputMultiplier :: string
  isSimulating :: bool
  randomCalls :: nat
  clockReads :: nat

definition initial_state :: app_state where
  "initial_state =
     \<lparr>crashHistory = [], inputMultiplier = [], isSimulating = False,
      randomCalls = 0, clockReads = 0\<rparr>"

section \<open>Outcome generator\<close>

text \<open>
  \<^verbatim>\<open>generateCrashMultiplier\<close> at the \<open>k\<close>-th call of \<^verbatim>\<open>Math.random()\<close>: the result and
  the number of calls made after it.
\<close>

definition generateCrashMultiplier :: "(nat \<Rightarrow> real) \<Rightarrow> nat \<Rightarrow> real \<times> nat" where
  "generateCrashMultiplier rnd k =
     (let random = rnd k in
      if random < 0.5 then (1.0 + rnd (k + 1), k + 2)
      else if random < 0.8 then (2.0 + rnd (k + 1) * 3, k + 2)
      else if random < 0.95 then (5.0 + rnd (k + 1) * 5, k + 2)
      else (10.0 + rnd (k + 1) * 40, k + 2))"

section \<open>History updates\<close>

definition addManualCrash :: "runtime \<Rightarrow> app_state \<Rightarrow> app_state" where
  "addManualCrash rt s =
     (let parsed = parseFloat rt (inputMultiplier s) in
      if num_ge parsed 1.0 \<and> num_le parsed 100 then
        (case parsed of
           Num m \<Rightarrow>
             let newCrash = \<lparr>id_num = Date_now rt (clockReads s),
                             multiplier = toFixed2 m,
                             timestamp = Date_now rt (clockReads s + 1)\<rparr>
             in s\<lparr>crashHistory := take 100 (newCrash # crashHistory s),
                  inputMultiplier := [],
                  clockReads := clockReads s + 2\<rparr>
         | _ \<Rightarrow> s)
      else s)"

text \<open>
  The loop of \<^verbatim>\<open>simulateRounds\<close>, from index \<open>i\<close>, on the array built so far and the
  counts of random calls and of clock readings.
\<close>

function simulate_loop ::
  "runtime \<Rightarrow> nat \<Rightarrow> nat \<Rightarrow> CrashPoint list \<times> nat \<times> nat \<Rightarrow> CrashPoint list \<times> nat \<times> nat"
where
  "simulate_loop rt cnt i (newCrashes, k, t) =
     (if i < cnt then
        (let (g, k') = generateCrashMultiplier (Math_random rt) k in
         simulate_loop rt cnt (Suc i)
           (newCrashes @ [\<lparr>id_num = Date_now rt t + int i,
                            multiplier = toFixed2 g,
                            timestamp = Date_now rt (t + 1) + int i * 1000\<rparr>],
            k', t + 2))
      else (newCrashes, k, t))"
  by pat_completeness auto
termination
  by (relation "measure (\<lambda>(rt, cnt, i, acc). cnt - i)") auto

declare simulate_loop.simps [simp del]

definition simulateRounds :: "runtime \<Rightarrow> nat \<Rightarrow> app_state \<Rightarrow> app_state" where
  "simulateRounds rt cnt s =
     (let (newCrashes, k, t) = simulate_loop rt cnt 0 ([], randomCalls s, clockReads s)
      in s\<lparr>crashHistory := take 100 (newCrashes @ crashHistory s),
           isSimulating := True,
           randomCalls := k,
           clockReads := t\<rparr>)"

section \<open>Event handlers\<close>

text \<open>
  The handlers of the page: typing into the input field, the button and the Enter key that
  call \<^verbatim>\<open>addManualCrash\<close>, the two simulation buttons (disabled while \<^verbatim>\<open>isSimulating\<close>),
  the button that clears the history, and the timer that \<^verbatim>\<open>simulateRounds\<close> sets.
\<close>

datatype event = ChangeInput string | AddCrash | Simulate nat | ClearAll | SimulationTimeout

fun handle :: "runtime \<Rightarrow> app_state \<Rightarrow> event \<Rightarrow> app_state" where
  "handle rt s (ChangeInput x) = s\<lparr>inputMultiplier := x\<rparr>"
| "handle rt s AddCrash = addManualCrash rt s"
| "handle rt s (Simulate n) = (if isSimulating s then s else simulateRounds rt n s)"
| "handle rt s ClearAll = s\<lparr>crashHistory := []\<rparr>"
| "handle rt s SimulationTimeout = s\<lparr>isSimulating := False\<rparr>"

definition run :: "runtime \<Rightarrow> app_state \<Rightarrow> event list \<Rightarrow> app_state" where
  "run rt s evs = foldl (handle rt) s evs"

section \<open>Statistics engine\<close>

text \<open>
  \<^verbatim>\<open>calculateStatistics\<close> on the history, with the arithmetic of the engine. The comparator
  \<^verbatim>\<open>(a, b) => a - b\<close> sorts numbers in ascending order; \<^verbatim>\<open>Math.max(...xs)\<close> and
  \<^verbatim>\<open>Math.min(...xs)\<close> of a non-empty array are the folds of \<open>max\<close> and \<open>min\<close> from its
  first element.
\<close>

definition calculateStatistics :: "arithmetic \<Rightarrow> CrashPoint list \<Rightarrow> Statistics option" where
  "calculateStatistics ar history =
     (if length history = 0 then None
      else
        let multipliers = map multiplier history;
            total = foldl (\<lambda>a b. num_add ar a b) 0 multipliers;
            avg = num_div ar total (real (length multipliers));
            ascending = sort multipliers;
            median =
              (if length ascending mod 2 = 0
               then num_div ar
                      (num_add ar (ascending ! (length ascending div 2 - 1))
                                  (ascending ! (length ascending div 2))) 2
               else ascending ! (length ascending div 2));
            variance =
              num_div ar
                (foldl (\<lambda>acc val. num_add ar acc (Math_pow ar (num_sub ar val avg) 2)) 0 multipliers)
                (real (length multipliers));
            deviation = Math_sqrt ar variance
        in Some \<lparr>averageMultiplier = toFixed2 avg,
                  medianMultiplier = toFixed2 median,
                  maxMultiplier = foldl max (hd multipliers) (tl multipliers),
                  minMultiplier = foldl min (hd multipliers) (tl multipliers),
                  volatility = toFixed2 deviation,
                  crashesBelow2x = length (filter (\<lambda>m. m < 2) multipliers),
                  crashesAbove5x = length (filter (\<lambda>m. m \<ge> 5) multipliers),
                  crashesAbove10x = length (filter (\<lambda>m. m \<ge> 10) multipliers)\<rparr>)"

definition distributionData :: "CrashPoint list \<Rightarrow> (string \<times> nat) list" where
  "distributionData history =
     [(''1.0x-1.5x'', length (filter (\<lambda>c. multiplier c \<ge> 1.0 \<and> multiplier c < 1.5) history)),
      (''1.5x-2.0x'', length (filter (\<lambda>c. multiplier c \<ge> 1.5 \<and> multiplier c < 2.0) history)),
      (''2.0x-3.0x'', length (filter (\<lambda>c. multiplier c \<ge> 2.0 \<and> multiplier c < 3.0) history)),
      (''3.0x-5.0x'', length (filter (\<lambda>c. multiplier c \<ge> 3.0 \<and> multiplier c < 5.0) history)),
      (''5.0x-10.0x'', length (filter (\<lambda>c. multiplier c \<ge> 5.0 \<and> multiplier c < 10.0) history)),
      (''10.0x+'', length (filter (\<lambda>c. multiplier c \<ge> 10.0) history))]"

section \<open>Auxiliary definitions\<close>

text \<open>
  The entry that iteration \<open>i\<close> of the loop of \<^verbatim>\<open>simulateRounds\<close> pushes, when \<open>k\<close> calls
  of \<^verbatim>\<open>Math.random()\<close> and \<open>t\<close> clock readings have been made before it.
\<close>

definition round_entry :: "runtime \<Rightarrow> nat \<Rightarrow> nat \<Rightarrow> nat \<Rightarrow> CrashPoint" where
  "round_entry rt k t i =
     \<lparr>id_num = Date_now rt t + int i,
      multiplier = toFixed2 (fst (generateCrashMultiplier (Math_random rt) k)),
      timestamp = Date_now rt (t + 1) + int i * 1000\<rparr>"

text \<open>The results of \<open>n\<close> successive calls of \<^verbatim>\<open>generateCrashMultiplier\<close>.\<close>

fun successive_calls :: "(nat \<Rightarrow> real) \<Rightarrow> nat \<Rightarrow> nat \<Rightarrow> real list" where
  "successive_calls rnd k 0 = []"
| "successive_calls rnd k (Suc n) =
     (let (g, k') = generateCrashMultiplier rnd k in g # successive_calls rnd k' n)"

text \<open>
  The entry that \<^verbatim>\<open>addManualCrash\<close> creates for the parsed value \<open>m\<close> when \<open>t\<close> clock readings
  have been made before it.
\<close>

definition manual_entry :: "runtime \<Rightarrow> nat \<Rightarrow> real \<Rightarrow> CrashPoint" where
  "manual_entry rt t m =
     \<lparr>id_num = Date_now rt t, multiplier = toFixed2 m, timestamp = Date_now rt (t + 1)\<rparr>"

text \<open>
  Manual entries one after the other: each string is typed into the input field and
  \<^verbatim>\<open>addManualCrash\<close> is called.
\<close>

fun manualEntries :: "runtime \<Rightarrow> string list \<Rightarrow> app_state \<Rightarrow> app_state" where
  "manualEntries rt [] s = s"
| "manualEntries rt (x # xs) s =
     manualEntries rt xs (addManualCrash rt (s\<lparr>inputMultiplier := x\<rparr>))"

text \<open>
  The entries that accepted manual entries with the parsed values \<open>ms\<close> create, the oldest
  first, from \<open>t\<close> clock readings on.
\<close>

fun manual_created :: "runtime \<Rightarrow> nat \<Rightarrow> real list \<Rightarrow> CrashPoint list" where
  "manual_created rt t [] = []"
| "manual_created rt t (m # ms) = manual_entry rt t m # manual_created rt (t + 2) ms"

text \<open>
  A \<^verbatim>\<open>parseFloat\<close> for concrete runs, after ECMAScript's: leading ASCII white space is
  skipped, the longest prefix that is a decimal literal is read, and a string with no such
  prefix gives \<^verbatim>\<open>NaN\<close>. It returns the exact value of the numeral where JavaScript returns
  the double nearest to it, and it does not skip white space outside ASCII.
\<close>

definition digit_of :: "char \<Rightarrow> nat option" where
  "digit_of c =
     map_of [(CHR ''0'', 0), (CHR ''1'', 1), (CHR ''2'', 2), (CHR ''3'', 3), (CHR ''4'', 4),
             (CHR ''5'', 5), (CHR ''6'', 6), (CHR ''7'', 7), (CHR ''8'', 8), (CHR ''9'', 9)] c"

fun take_digits :: "string \<Rightarrow> nat list \<times> string" where
  "take_digits [] = ([], [])"
| "take_digits (c # cs) =
     (case digit_of c of
        None \<Rightarrow> ([], c # cs)
      | Some d \<Rightarrow> (let (ds, rest) = take_digits cs in (d # ds, rest)))"

definition digits_nat :: "nat list \<Rightarrow> nat" where
  "digits_nat ds = foldl (\<lambda>a d. 10 * a + d) 0 ds"

definition exponent_factor :: "string \<Rightarrow> real" where
  "exponent_factor s =
     (case s of
        [] \<Rightarrow> 1
      | c # cs \<Rightarrow>
          if c = CHR ''e'' \<or> c = CHR ''E'' then
            (case cs of
               [] \<Rightarrow> 1
             | g # cs' \<Rightarrow>
                 if g = CHR ''-'' then
                   (let (es, rest) = take_digits cs'
                    in if es = [] then 1 else 1 / 10 ^ digits_nat es)
                 else
                   (let (es, rest) = take_digits (if g = CHR ''+'' then cs' else cs)
                    in if es = [] then 1 else 10 ^ digits_nat es))
          else 1)"

definition parse_unsigned :: "string \<Rightarrow> number" where
  "parse_unsigned s =
     (if take 8 s = ''Infinity'' then Infinity
      else
        let (ds, r1) = take_digits s;
            (fs, r2) = (case r1 of
                          [] \<Rightarrow> ([], r1)
                        | c # cs \<Rightarrow> if c = CHR ''.'' then take_digits cs else ([], r1))
        in if ds = [] \<and> fs = [] then NaN
           else Num ((real (digits_nat ds) + real (digits_nat fs) / 10 ^ length fs)
                     * exponent_factor r2))"

fun negate :: "number \<Rightarrow> number" where
  "negate NaN = NaN"
| "negate Infinity = NegInfinity"
| "negate NegInfinity = Infinity"
| "negate (Num x) = Num (- x)"

definition parseFloat_ecma :: "string \<Rightarrow> number" where
  "parseFloat_ecma s =
     (case dropWhile (\<lambda>c. c \<in> set [CHR '' '', CHR 0x09, CHR 0x0A, CHR 0x0B, CHR 0x0C, CHR 0x0D]) s of
        [] \<Rightarrow> NaN
      | c # cs \<Rightarrow>
          if c = CHR ''-'' then negate (parse_unsigned cs)
          else if c = CHR ''+'' then parse_unsigned cs
          else parse_unsigned (c # cs))"

text \<open>
  A runtime for concrete runs: every draw is \<open>0.25\<close> and the clock advances by one millisecond
  at each reading.
\<close>

definition example_runtime :: runtime where
  "example_runtime =
     \<lparr>Math_random = (\<lambda>j. 1 / 4),
      Date_now = (\<lambda>j. 1700000000000 + int j),
      parseFloat = parseFloat_ecma\<rparr>"

text \<open>A history is newest first when no entry has a later timestamp than an entry before it.\<close>

definition newest_first :: "CrashPoint list \<Rightarrow> bool" where
  "newest_first history = sorted_wrt (\<lambda>a b. timestamp b \<le> timestamp a) history"

text \<open>
  The domain of the data model: at most 100 entries, every multiplier in \<open>[1.00, 100.00]\<close>.
\<close>

definition history_ok :: "CrashPoint list \<Rightarrow> bool" where
  "history_ok history =
     (length history \<le> 100 \<and> (\<forall>c \<in> set history. 1 \<le> multiplier c \<and> multiplier c \<le> 100))"

text \<open>
  The six ranges of the histogram as the specification gives them: a lower bound that is
  included and an upper bound that is not, the last range without an upper bound.
\<close>

definition histogram_ranges :: "(real \<times> real option) list" where
  "histogram_ranges =
     [(1.0, Some 1.5), (1.5, Some 2.0), (2.0, Some 3.0), (3.0, Some 5.0), (5.0, Some 10.0),
      (10.0, None)]"

fun in_range :: "real \<Rightarrow> real \<times> real option \<Rightarrow> bool" where
  "in_range m (lo, None) = (lo \<le> m)"
| "in_range m (lo, Some hi) = (lo \<le> m \<and> m < hi)"

text \<open>Arithmetic mean and population standard deviation, as the specification words them.\<close>

definition mean :: "real list \<Rightarrow> real" where
  "mean xs = sum_list xs / real (length xs)"

definition population_stddev :: "real list \<Rightarrow> real" where
  "population_stddev xs = sqrt (sum_list (map (\<lambda>x. (x - mean xs) ^ 2) xs) / real (length xs))"

text \<open>Arithmetic without rounding.\<close>

definition exact_arithmetic :: arithmetic where
  "exact_arithmetic =
     \<lparr>num_add = (\<lambda>x y. x + y), num_sub = (\<lambda>x y. x - y), num_div = (\<lambda>x y. x / y),
      Math_pow = (\<lambda>x y. if y = 2 then x * x else x powr y), Math_sqrt = sqrt\<rparr>"

text \<open>
  The bounds of an accurate arithmetic: the relative error of an operation, the absolute
  error of an operation, and the magnitude up to which operands are considered.
\<close>

definition float_eps :: real where "float_eps = 1 / 2 ^ 50"

definition float_tiny :: real where "float_tiny = 1 / 2 ^ 1070"

definition float_big :: real where "float_big = 2 ^ 500"

text \<open>The two errors of an operation together, the unit in which the proofs count.\<close>

definition float_err :: real where
  "float_err = float_eps + float_tiny"

text \<open>
  An arithmetic is accurate when every operation returns the exact result up to a relative
  error of \<open>2^-50\<close> and an absolute error of \<open>2^-1070\<close>, on operands of magnitude up to
  \<open>2^500\<close>, and returns no negative number where the exact result is not negative.
  Double-precision arithmetic with rounding to nearest is accurate: it returns the exact
  result up to a relative error of \<open>2^-53\<close>, or up to \<open>2^-1075\<close> where the result underflows,
  which leaves room for a decimal numeral such as \<open>1.01\<close> to stand for the nearest double.
  Exact arithmetic is accurate.
\<close>

definition accurate :: "arithmetic \<Rightarrow> bool" where
  "accurate ar \<longleftrightarrow>
     (\<forall>x y. \<bar>x\<bar> \<le> float_big \<and> \<bar>y\<bar> \<le> float_big \<longrightarrow>
        \<bar>num_add ar x y - (x + y)\<bar> \<le> float_eps * (\<bar>x\<bar> + \<bar>y\<bar>) + float_tiny
        \<and> (0 \<le> x \<and> 0 \<le> y \<longrightarrow> 0 \<le> num_add ar x y))
     \<and> (\<forall>x y. \<bar>x\<bar> \<le> float_big \<and> \<bar>y\<bar> \<le> float_big \<longrightarrow>
        \<bar>num_sub ar x y - (x - y)\<bar> \<le> float_eps * (\<bar>x\<bar> + \<bar>y\<bar>) + float_tiny)
     \<and> (\<forall>x y. \<bar>x\<bar> \<le> float_big \<and> 1 \<le> y \<and> y \<le> float_big \<longrightarrow>
        \<bar>num_div ar x y - x / y\<bar> \<le> float_eps * \<bar>x / y\<bar> + float_tiny
        \<and> (0 \<le> x \<longrightarrow> 0 \<le> num_div ar x y))
     \<and> (\<forall>x. \<bar>x\<bar> \<le> float_big \<longrightarrow>
        \<bar>Math_pow ar x 2 - x ^ 2\<bar> \<le> float_eps * x ^ 2 + float_tiny
        \<and> 0 \<le> Math_pow ar x 2)
     \<and> (\<forall>x. 0 \<le> x \<and> x \<le> float_big \<longrightarrow>
        \<bar>Math_sqrt ar x - sqrt x\<bar> \<le> float_eps * sqrt x)"

text \<open>
  The average, the variance and the deviation as \<^verbatim>\<open>calculateStatistics\<close> computes them,
  and its median of a list in ascending order, each before \<^verbatim>\<open>toFixed(2)\<close>.
\<close>

definition float_mean :: "arithmetic \<Rightarrow> real list \<Rightarrow> real" where
  "float_mean ar xs = num_div ar (foldl (num_add ar) 0 xs) (real (length xs))"

definition float_variance :: "arithmetic \<Rightarrow> real list \<Rightarrow> real" where
  "float_variance ar xs =
     num_div ar
       (foldl (num_add ar) 0 (map (\<lambda>val. Math_pow ar (num_sub ar val (float_mean ar xs)) 2) xs))
       (real (length xs))"

definition float_stddev :: "arithmetic \<Rightarrow> real list \<Rightarrow> real" where
  "float_stddev ar xs = Math_sqrt ar (float_variance ar xs)"

definition float_median :: "arithmetic \<Rightarrow> real list \<Rightarrow> real" where
  "float_median ar ys =
     (if even (length ys)
      then num_div ar (num_add ar (ys ! (length ys div 2 - 1)) (ys ! (length ys div 2))) 2
      else ys ! (length ys div 2))"

section \<open>The summary is absent exactly for the empty history\<close>

text \<open>
  C1. \<^verbatim>\<open>calculateStatistics\<close> returns a summary for every non-empty list of outcomes and
  \<^verbatim>\<open>null\<close> for the empty list, whatever the arithmetic; the function has no other
  abnormal result.
\<close>

theorem calculateStatistics_absent_iff_empty:
  "(calculateStatistics ar history = None) = (history = [])"
  by (simp add: calculateStatistics_def Let_def)

theorem calculateStatistics_absent_iff_empty_witness:
  "calculateStatistics exact_arithmetic [] = None
   \<and> calculateStatistics exact_arithmetic [\<lparr>id_num = 1, multiplier = 2.5, timestamp = 10\<rparr>] \<noteq> None"
  using calculateStatistics_absent_iff_empty [of exact_arithmetic "[]"]
    calculateStatistics_absent_iff_empty
      [of exact_arithmetic "[\<lparr>id_num = 1, multiplier = 2.5, timestamp = 10\<rparr>]"]
  by simp

section \<open>The outcome generator\<close>

lemma generate_calls: "snd (generateCrashMultiplier rnd k) = k + 2"
  by (simp add: generateCrashMultiplier_def Let_def)

lemma generate_range:
  assumes "0 \<le> rnd k" "rnd k < 1" "0 \<le> rnd (k + 1)" "rnd (k + 1) < 1"
  shows "1 \<le> fst (generateCrashMultiplier rnd k) \<and> fst (generateCrashMultiplier rnd k) < 50"
  using assms by (simp add: generateCrashMultiplier_def Let_def)

lemma toFixed2_nonneg_small:
  "0 \<le> x \<Longrightarrow> x < 10 ^ 21 \<Longrightarrow> toFixed2 x = real_of_int \<lfloor>x * 100 + 1 / 2\<rfloor> / 100"
  by (simp add: toFixed2_def)

lemma toFixed2_stored_range:
  assumes "1 \<le> x" "x < 50"
  shows "1 \<le> toFixed2 x \<and> toFixed2 x \<le> 50"
proof -
  have eq: "toFixed2 x = real_of_int \<lfloor>x * 100 + 1 / 2\<rfloor> / 100"
    using assms by (intro toFixed2_nonneg_small) auto
  have "100 \<le> \<lfloor>x * 100 + 1 / 2\<rfloor>" using assms by (simp add: le_floor_iff)
  moreover have "\<lfloor>x * 100 + 1 / 2\<rfloor> \<le> 5000" using assms by (simp add: floor_le_iff)
  ultimately show ?thesis unfolding eq by simp
qed

lemma simulate_loop_eq:
  "i \<le> cnt \<Longrightarrow>
   simulate_loop rt cnt i (acc, k, t) =
     (acc @ map (\<lambda>j. round_entry rt (k + 2 * (j - i)) (t + 2 * (j - i)) j) [i..<cnt],
      k + 2 * (cnt - i), t + 2 * (cnt - i))"
proof (induction "cnt - i" arbitrary: i acc k t)
  case 0
  then show ?case by (subst simulate_loop.simps) simp
next
  case (Suc d)
  then have lt: "i < cnt" and d: "d = cnt - Suc i" and le: "Suc i \<le> cnt" by auto
  obtain g k' where gk: "generateCrashMultiplier (Math_random rt) k = (g, k')"
    by (cases "generateCrashMultiplier (Math_random rt) k")
  then have k': "k' = k + 2" and g: "g = fst (generateCrashMultiplier (Math_random rt) k)"
    using generate_calls [of "Math_random rt" k] by auto
  have m: "map (\<lambda>j. round_entry rt (k' + 2 * (j - Suc i)) (t + 2 + 2 * (j - Suc i)) j) [Suc i..<cnt]
         = map (\<lambda>j. round_entry rt (k + 2 * (j - i)) (t + 2 * (j - i)) j) [Suc i..<cnt]"
  proof (rule map_cong [OF refl])
    fix j assume "j \<in> set [Suc i..<cnt]"
    then have "Suc i \<le> j" by simp
    then have "k' + 2 * (j - Suc i) = k + 2 * (j - i)" "t + 2 + 2 * (j - Suc i) = t + 2 * (j - i)"
      using k' by auto
    then show "round_entry rt (k' + 2 * (j - Suc i)) (t + 2 + 2 * (j - Suc i)) j
             = round_entry rt (k + 2 * (j - i)) (t + 2 * (j - i)) j"
      by (simp only:)
  qed
  have "simulate_loop rt cnt i (acc, k, t)
      = simulate_loop rt cnt (Suc i) (acc @ [round_entry rt k t i], k', t + 2)"
    using lt by (subst simulate_loop.simps) (simp add: gk round_entry_def)
  also have "\<dots> = ((acc @ [round_entry rt k t i])
        @ map (\<lambda>j. round_entry rt (k' + 2 * (j - Suc i)) (t + 2 + 2 * (j - Suc i)) j) [Suc i..<cnt],
      k' + 2 * (cnt - Suc i), t + 2 + 2 * (cnt - Suc i))"
    by (rule Suc.hyps(1) [OF d le])
  also have "\<dots> = (acc @ map (\<lambda>j. round_entry rt (k + 2 * (j - i)) (t + 2 * (j - i)) j) [i..<cnt],
      k + 2 * (cnt - i), t + 2 * (cnt - i))"
  proof -
    have u: "[i..<cnt] = i # [Suc i..<cnt]" using lt by (rule upt_conv_Cons)
    have a: "k' + 2 * (cnt - Suc i) = k + 2 * (cnt - i)"
      "t + 2 + 2 * (cnt - Suc i) = t + 2 * (cnt - i)"
      using lt k' by auto
    show ?thesis unfolding m u a by simp
  qed
  finally show ?case .
qed

lemma successive_calls_length: "length (successive_calls rnd k n) = n"
  by (induction n arbitrary: k) (auto split: prod.splits)

lemma successive_calls_range:
  assumes "\<forall>j. 0 \<le> rnd j \<and> rnd j < 1"
  shows "g \<in> set (successive_calls rnd k n) \<Longrightarrow> 1 \<le> g \<and> g < 50"
proof (induction n arbitrary: k)
  case 0
  then show ?case by simp
next
  case (Suc n)
  obtain g0 k' where gk: "generateCrashMultiplier rnd k = (g0, k')"
    by (cases "generateCrashMultiplier rnd k")
  have "1 \<le> g0 \<and> g0 < 50"
    using generate_range [of rnd k] assms gk by simp
  with Suc gk show ?case by auto
qed

text \<open>
  C2. With \<open>r\<close> the selector draw and \<open>u\<close> the draw after it, both in \<open>[0,1)\<close>,
  \<^verbatim>\<open>generateCrashMultiplier\<close> returns \<open>1.0 + u\<close> when \<open>r < 0.5\<close>, \<open>2.0 + u * 3\<close> when
  \<open>0.5 \<le> r < 0.8\<close>, \<open>5.0 + u * 5\<close> when \<open>0.8 \<le> r < 0.95\<close> and \<open>10.0 + u * 40\<close> when
  \<open>0.95 \<le> r < 1.0\<close>. One generation makes two calls of \<^verbatim>\<open>Math.random()\<close>: the scaling
  draw is the call after the selector draw, not the selector draw again.
\<close>

theorem generateCrashMultiplier_branches:
  assumes "0 \<le> rnd k" "rnd k < 1" "0 \<le> rnd (k + 1)" "rnd (k + 1) < 1"
  shows "(rnd k < 0.5 \<longrightarrow>
            fst (generateCrashMultiplier rnd k) = 1.0 + rnd (k + 1))
       \<and> (0.5 \<le> rnd k \<and> rnd k < 0.8 \<longrightarrow>
            fst (generateCrashMultiplier rnd k) = 2.0 + rnd (k + 1) * 3)
       \<and> (0.8 \<le> rnd k \<and> rnd k < 0.95 \<longrightarrow>
            fst (generateCrashMultiplier rnd k) = 5.0 + rnd (k + 1) * 5)
       \<and> (0.95 \<le> rnd k \<and> rnd k < 1.0 \<longrightarrow>
            fst (generateCrashMultiplier rnd k) = 10.0 + rnd (k + 1) * 40)
       \<and> snd (generateCrashMultiplier rnd k) = k + 2"
  by (simp add: generateCrashMultiplier_def Let_def)

theorem generateCrashMultiplier_branches_witness:
  "fst (generateCrashMultiplier (\<lambda>j. if j = 0 then 3 / 5 else 1 / 2) 0) = 7 / 2
   \<and> snd (generateCrashMultiplier (\<lambda>j. if j = 0 then 3 / 5 else 1 / 2) 0) = 2"
  using generateCrashMultiplier_branches [of "\<lambda>j. if j = 0 then 3 / 5 else 1 / 2" 0]
  by simp

text \<open>
  C7. When every draw lies in \<open>[0,1)\<close>, \<^verbatim>\<open>generateCrashMultiplier\<close> returns a value that is
  at least \<open>1.0\<close> and strictly below \<open>50.0\<close>; any number of successive calls all return,
  each with such a value.
\<close>

theorem generateCrashMultiplier_in_range:
  assumes "\<forall>j. 0 \<le> rnd j \<and> rnd j < 1"
  shows "1 \<le> fst (generateCrashMultiplier rnd k)
       \<and> fst (generateCrashMultiplier rnd k) < 50
       \<and> length (successive_calls rnd k n) = n
       \<and> (\<forall>g \<in> set (successive_calls rnd k n). 1 \<le> g \<and> g < 50)"
  using assms generate_range [of rnd k] successive_calls_range [OF assms]
  by (simp add: successive_calls_length)

theorem generateCrashMultiplier_in_range_witness:
  "1 \<le> fst (generateCrashMultiplier (\<lambda>j. 99 / 100) 0)
   \<and> fst (generateCrashMultiplier (\<lambda>j. 99 / 100) 0) < 50
   \<and> length (successive_calls (\<lambda>j. 99 / 100) 0 100000) = 100000
   \<and> list_all (\<lambda>g. 1 \<le> g \<and> g < 50) (successive_calls (\<lambda>j. 99 / 100) 0 100000)"
  using generateCrashMultiplier_in_range [of "\<lambda>j. 99 / 100" 0 100000]
  by (simp add: list_all_iff)

lemma simulate_loop_stored_range:
  assumes "\<forall>j. 0 \<le> Math_random rt j \<and> Math_random rt j < 1"
    and "c \<in> set (fst (simulate_loop rt n 0 ([], k, t)))"
  shows "1 \<le> multiplier c \<and> multiplier c \<le> 50"
proof -
  from assms(2) obtain j where
    c: "c = round_entry rt (k + 2 * j) (t + 2 * j) j"
    by (auto simp: simulate_loop_eq)
  have "1 \<le> fst (generateCrashMultiplier (Math_random rt) (k + 2 * j))
      \<and> fst (generateCrashMultiplier (Math_random rt) (k + 2 * j)) < 50"
    using assms(1) by (intro generate_range) auto
  then show ?thesis
    unfolding c round_entry_def using toFixed2_stored_range by simp
qed

lemma simulate_one_at_top:
  "map multiplier (take 1 (crashHistory
      (simulateRounds \<lparr>Math_random = (\<lambda>j. if j = randomCalls s then 19 / 20 else 9999 / 10000),
                       Date_now = clock, parseFloat = pf\<rparr> 1 s))) = [50]"
  by (simp add: simulateRounds_def simulate_loop_eq round_entry_def
      generateCrashMultiplier_def toFixed2_def)

text \<open>
  C10. A simulated outcome is stored as \<^verbatim>\<open>parseFloat(generateCrashMultiplier().toFixed(2))\<close>.
  For some pair of draws in \<open>[0,1)\<close> the generator returns less than \<open>50\<close> and the stored
  multiplier is exactly \<open>50\<close>; for all draws in \<open>[0,1)\<close> every multiplier that the loop of
  \<^verbatim>\<open>simulateRounds\<close> stores lies in \<open>[1, 50]\<close>.
\<close>

theorem stored_multiplier_reaches_50:
  "(\<exists>r u. 0 \<le> r \<and> r < 1 \<and> 0 \<le> u \<and> u < 1
      \<and> fst (generateCrashMultiplier (\<lambda>j. if j = randomCalls s then r else u) (randomCalls s)) < 50
      \<and> map multiplier (take 1 (crashHistory
           (simulateRounds \<lparr>Math_random = (\<lambda>j. if j = randomCalls s then r else u),
                            Date_now = clock, parseFloat = pf\<rparr> 1 s))) = [50])
   \<and> ((\<forall>j. 0 \<le> Math_random rt j \<and> Math_random rt j < 1) \<longrightarrow>
        (\<forall>c \<in> set (fst (simulate_loop rt n 0 ([], k, t))).
           1 \<le> multiplier c \<and> multiplier c \<le> 50))"
proof (intro conjI impI ballI)
  show "\<exists>r u. 0 \<le> r \<and> r < 1 \<and> 0 \<le> u \<and> u < 1
      \<and> fst (generateCrashMultiplier (\<lambda>j. if j = randomCalls s then r else u) (randomCalls s)) < 50
      \<and> map multiplier (take 1 (crashHistory
           (simulateRounds \<lparr>Math_random = (\<lambda>j. if j = randomCalls s then r else u),
                            Date_now = clock, parseFloat = pf\<rparr> 1 s))) = [50]"
    apply (rule exI [of _ "19 / 20"])
    apply (rule exI [of _ "9999 / 10000"])
    using simulate_one_at_top [of s clock pf]
    by (simp add: generateCrashMultiplier_def)
next
  fix c
  assume "\<forall>j. 0 \<le> Math_random rt j \<and> Math_random rt j < 1"
    and "c \<in> set (fst (simulate_loop rt n 0 ([], k, t)))"
  then show "1 \<le> multiplier c" "multiplier c \<le> 50"
    using simulate_loop_stored_range by blast+
qed

theorem stored_multiplier_reaches_50_witness:
  "list_all (\<lambda>c. 1 \<le> multiplier c \<and> multiplier c \<le> 50)
     (fst (simulate_loop \<lparr>Math_random = (\<lambda>j. 99 / 100), Date_now = (\<lambda>j. 0),
                           parseFloat = (\<lambda>x. NaN)\<rparr> 3 0 ([], 0, 0)))"
  using stored_multiplier_reaches_50
    [of initial_state "\<lambda>j. 0" "\<lambda>x. NaN"
        "\<lparr>Math_random = (\<lambda>j. 99 / 100), Date_now = (\<lambda>j. 0), parseFloat = (\<lambda>x. NaN)\<rparr>" 3 0 0]
  by (simp add: list_all_iff)

section \<open>The history\<close>

lemma addManualCrash_accept:
  assumes "parseFloat rt (inputMultiplier s) = Num m" "1 \<le> m" "m \<le> 100"
  shows "addManualCrash rt s =
           s\<lparr>crashHistory := take 100 (manual_entry rt (clockReads s) m # crashHistory s),
             inputMultiplier := [],
             clockReads := clockReads s + 2\<rparr>"
  using assms by (simp add: addManualCrash_def manual_entry_def)

lemma addManualCrash_reject:
  assumes "\<not> (\<exists>m. parseFloat rt (inputMultiplier s) = Num m \<and> 1 \<le> m \<and> m \<le> 100)"
  shows "addManualCrash rt s = s"
  using assms by (cases "parseFloat rt (inputMultiplier s)") (auto simp: addManualCrash_def)

lemma simulateRounds_eq:
  "simulateRounds rt n s =
     s\<lparr>crashHistory :=
          take 100 (map (\<lambda>j. round_entry rt (randomCalls s + 2 * j) (clockReads s + 2 * j) j) [0..<n]
                    @ crashHistory s),
       isSimulating := True,
       randomCalls := randomCalls s + 2 * n,
       clockReads := clockReads s + 2 * n\<rparr>"
  by (simp add: simulateRounds_def simulate_loop_eq)

lemma take_append_take: "take n (xs @ take n ys) = take n (xs @ ys)"
  by (simp add: min_def)

lemma manualEntries_history:
  assumes "map (parseFloat rt) xs = map Num ms" "\<forall>m \<in> set ms. 1 \<le> m \<and> m \<le> 100"
    and "length (crashHistory s) \<le> 100"
  shows "crashHistory (manualEntries rt xs s) =
           take 100 (rev (manual_created rt (clockReads s) ms) @ crashHistory s)"
  using assms
proof (induction xs arbitrary: ms s)
  case Nil
  then show ?case by simp
next
  case (Cons x xs)
  then obtain m ms' where ms: "ms = m # ms'" by (cases ms) auto
  let ?s = "s\<lparr>inputMultiplier := x\<rparr>"
  have p: "parseFloat rt (inputMultiplier ?s) = Num m" "1 \<le> m" "m \<le> 100"
    using Cons.prems ms by auto
  have rest: "map (parseFloat rt) xs = map Num ms'" "\<forall>m \<in> set ms'. 1 \<le> m \<and> m \<le> 100"
    using Cons.prems ms by auto
  have c1: "clockReads (addManualCrash rt ?s) = clockReads s + 2"
    and h1: "crashHistory (addManualCrash rt ?s)
             = take 100 (manual_entry rt (clockReads s) m # crashHistory s)"
    by (simp_all add: addManualCrash_accept [OF p])
  have len: "length (crashHistory (addManualCrash rt ?s)) \<le> 100"
    unfolding h1 by simp
  have "crashHistory (manualEntries rt (x # xs) s)
      = crashHistory (manualEntries rt xs (addManualCrash rt ?s))"
    by simp
  also have "\<dots> = take 100 (rev (manual_created rt (clockReads (addManualCrash rt ?s)) ms')
                           @ crashHistory (addManualCrash rt ?s))"
    by (rule Cons.IH [OF rest len])
  also have "\<dots> = take 100 (rev (manual_created rt (clockReads s + 2) ms')
                           @ (manual_entry rt (clockReads s) m # crashHistory s))"
    unfolding c1 h1 by (rule take_append_take)
  also have "\<dots> = take 100 (rev (manual_created rt (clockReads s) (m # ms')) @ crashHistory s)"
    by simp
  finally show ?case unfolding ms .
qed

lemma toFixed2_ge_1:
  assumes "1 \<le> x"
  shows "1 \<le> toFixed2 x"
proof (cases "10 ^ 21 \<le> \<bar>x\<bar>")
  case True
  then show ?thesis using assms by (simp add: toFixed2_def)
next
  case False
  have "100 \<le> \<lfloor>x * 100 + 1 / 2\<rfloor>" using assms by (simp add: le_floor_iff)
  then show ?thesis using False assms by (simp add: toFixed2_def)
qed

lemma manual_created_length: "length (manual_created rt t ms) = length ms"
  by (induction ms arbitrary: t) auto

lemma take_rev_drop: "take n (rev xs) = rev (drop (length xs - n) xs)"
  by (simp add: take_rev)

text \<open>
  C9. \<^verbatim>\<open>addManualCrash\<close> leaves the whole state as it is when \<^verbatim>\<open>parseFloat\<close> of the input
  string is \<^verbatim>\<open>NaN\<close> (a string that is not numeric), is infinite, or is a number below \<open>1\<close> or
  above \<open>100\<close>; when it is a number in \<open>[1, 100]\<close> a new outcome with that value, rounded to
  two decimals, goes to the head of the history; and the history changes only in that case.
\<close>

theorem addManualCrash_validation:
  "(parseFloat rt (inputMultiplier s) = NaN \<longrightarrow> addManualCrash rt s = s)
   \<and> (parseFloat rt (inputMultiplier s) = Infinity \<longrightarrow> addManualCrash rt s = s)
   \<and> (parseFloat rt (inputMultiplier s) = NegInfinity \<longrightarrow> addManualCrash rt s = s)
   \<and> (parseFloat rt (inputMultiplier s) = Num m \<and> (m < 1 \<or> 100 < m) \<longrightarrow>
        addManualCrash rt s = s)
   \<and> (parseFloat rt (inputMultiplier s) = Num m \<and> 1 \<le> m \<and> m \<le> 100 \<longrightarrow>
        crashHistory (addManualCrash rt s) =
          take 100 (\<lparr>id_num = Date_now rt (clockReads s), multiplier = toFixed2 m,
                     timestamp = Date_now rt (clockReads s + 1)\<rparr> # crashHistory s))
   \<and> (crashHistory (addManualCrash rt s) \<noteq> crashHistory s \<longrightarrow>
        (\<exists>v. parseFloat rt (inputMultiplier s) = Num v \<and> 1 \<le> v \<and> v \<le> 100))"
  by (cases "parseFloat rt (inputMultiplier s)") (auto simp: addManualCrash_def)

theorem addManualCrash_validation_witness:
  "addManualCrash example_runtime (initial_state\<lparr>inputMultiplier := ''abc''\<rparr>)
     = initial_state\<lparr>inputMultiplier := ''abc''\<rparr>
   \<and> addManualCrash example_runtime (initial_state\<lparr>inputMultiplier := ''0.99''\<rparr>)
     = initial_state\<lparr>inputMultiplier := ''0.99''\<rparr>
   \<and> addManualCrash example_runtime (initial_state\<lparr>inputMultiplier := ''100.01''\<rparr>)
     = initial_state\<lparr>inputMultiplier := ''100.01''\<rparr>
   \<and> crashHistory (addManualCrash example_runtime (initial_state\<lparr>inputMultiplier := ''2.456''\<rparr>))
     = [\<lparr>id_num = 1700000000000, multiplier = 123 / 50, timestamp = 1700000000001\<rparr>]"
proof -
  have p: "parseFloat example_runtime ''abc'' = NaN"
    "parseFloat example_runtime ''0.99'' = Num (99 / 100)"
    "parseFloat example_runtime ''100.01'' = Num (10001 / 100)"
    "parseFloat example_runtime ''2.456'' = Num (307 / 125)"
    by (simp_all add: example_runtime_def parseFloat_ecma_def parse_unsigned_def digit_of_def
        digits_nat_def exponent_factor_def)
  have r: "toFixed2 (307 / 125) = 123 / 50"
    by (simp add: toFixed2_def)
  have c: "Date_now example_runtime 0 = 1700000000000" "Date_now example_runtime (Suc 0) = 1700000000001"
    by (simp_all add: example_runtime_def)
  show ?thesis
    using addManualCrash_validation [of example_runtime "initial_state\<lparr>inputMultiplier := ''abc''\<rparr>"]
      addManualCrash_validation [of example_runtime "initial_state\<lparr>inputMultiplier := ''0.99''\<rparr>" "99 / 100"]
      addManualCrash_validation [of example_runtime "initial_state\<lparr>inputMultiplier := ''100.01''\<rparr>" "10001 / 100"]
      addManualCrash_validation [of example_runtime "initial_state\<lparr>inputMultiplier := ''2.456''\<rparr>" "307 / 125"]
    by (simp add: p r c initial_state_def)
qed

text \<open>
  C6. The history is to hold the 100 most recently inserted entries, the newest first, as
  \<^verbatim>\<open>addManualCrash\<close> keeps it and as the chart of the last 50 rounds reads it.
  \<^verbatim>\<open>simulateRounds\<close> puts a batch before the previous history in the order of generation:
  after ten simulated rounds on the empty history, the clock advancing by a millisecond at
  each reading, the entry generated first, with the smallest id and the earliest timestamp,
  is at the head of the history and the timestamps ascend from there, so this history is
  not newest first.
\<close>

theorem batch_head_is_oldest:
  "map timestamp (crashHistory (simulateRounds example_runtime 10 initial_state))
     = [1700000000001, 1700000001003, 1700000002005, 1700000003007, 1700000004009,
        1700000005011, 1700000006013, 1700000007015, 1700000008017, 1700000009019]
   \<and> map id_num (crashHistory (simulateRounds example_runtime 10 initial_state))
     = [1700000000000, 1700000000003, 1700000000006, 1700000000009, 1700000000012,
        1700000000015, 1700000000018, 1700000000021, 1700000000024, 1700000000027]
   \<and> \<not> newest_first (crashHistory (simulateRounds example_runtime 10 initial_state))"
proof -
  have h: "crashHistory (simulateRounds example_runtime 10 initial_state)
     = map (\<lambda>j. round_entry example_runtime (2 * j) (2 * j) j) [0..<10]"
    by (simp add: simulateRounds_eq initial_state_def)
  have u: "[0..<10] = [0, 1, 2, 3, 4, 5, 6, 7, 8, 9]"
    by (simp add: upt_rec)
  show ?thesis
    unfolding h u by (simp add: round_entry_def example_runtime_def newest_first_def)
qed

lemma manual_created_after:
  assumes "mono (Date_now rt)" "c \<in> set (manual_created rt t ms)"
  shows "Date_now rt t \<le> timestamp c"
  using assms(2)
proof (induction ms arbitrary: t)
  case Nil
  then show ?case by simp
next
  case (Cons m ms)
  have a: "Date_now rt t \<le> Date_now rt (t + 1)" "Date_now rt t \<le> Date_now rt (t + 2)"
    using assms(1) by (auto intro: monoD)
  from Cons.prems consider "c = manual_entry rt t m" | "c \<in> set (manual_created rt (t + 2) ms)"
    by auto
  then show ?case
  proof cases
    case 1
    then show ?thesis using a by (simp add: manual_entry_def)
  next
    case 2
    then have "Date_now rt (t + 2) \<le> timestamp c" by (rule Cons.IH)
    with a show ?thesis by linarith
  qed
qed

lemma manual_created_oldest_first:
  assumes "mono (Date_now rt)"
  shows "sorted_wrt (\<lambda>a b. timestamp a \<le> timestamp b) (manual_created rt t ms)"
proof (induction ms arbitrary: t)
  case Nil
  then show ?case by simp
next
  case (Cons m ms)
  have "timestamp (manual_entry rt t m) \<le> timestamp c"
    if "c \<in> set (manual_created rt (t + 2) ms)" for c
  proof -
    have "Date_now rt (t + 1) \<le> Date_now rt (t + 2)"
      using assms by (auto intro: monoD)
    moreover have "Date_now rt (t + 2) \<le> timestamp c"
      using assms that by (rule manual_created_after)
    ultimately show ?thesis by (simp add: manual_entry_def)
  qed
  with Cons.IH [of "t + 2"] show ?case by simp
qed

lemma manual_history_newest_first:
  assumes "mono (Date_now rt)"
  shows "newest_first (rev (drop n (manual_created rt t ms)))"
  unfolding newest_first_def sorted_wrt_rev
  using manual_created_oldest_first [OF assms] by (rule sorted_wrt_drop)

text \<open>
  What the insertions do to the history. After a simulated batch it is the first 100 entries
  of the batch, in the order of generation, followed by the previous history; after an
  accepted manual entry it is the first 100 entries of the new entry followed by the
  previous history; either way it has at most 100 entries. Manual entries made one after the
  other leave the first 100 entries of these entries, the newest first, followed by the
  previous history; on an empty history that is the most recent 100 of them, the newest
  first.
\<close>

lemma history_after_insertion:
  "length (crashHistory (simulateRounds rt n s)) \<le> 100
   \<and> crashHistory (simulateRounds rt n s) =
       take 100 (map (\<lambda>j. round_entry rt (randomCalls s + 2 * j) (clockReads s + 2 * j) j) [0..<n]
                 @ crashHistory s)
   \<and> (parseFloat rt (inputMultiplier s) = Num m \<and> 1 \<le> m \<and> m \<le> 100 \<longrightarrow>
        length (crashHistory (addManualCrash rt s)) \<le> 100
        \<and> crashHistory (addManualCrash rt s) =
            take 100 (manual_entry rt (clockReads s) m # crashHistory s))
   \<and> (map (parseFloat rt) xs = map Num ms \<and> (\<forall>v \<in> set ms. 1 \<le> v \<and> v \<le> 100)
        \<and> length (crashHistory s) \<le> 100 \<longrightarrow>
        crashHistory (manualEntries rt xs s) =
          take 100 (rev (manual_created rt (clockReads s) ms) @ crashHistory s))
   \<and> (map (parseFloat rt) xs = map Num ms \<and> (\<forall>v \<in> set ms. 1 \<le> v \<and> v \<le> 100)
        \<and> crashHistory s = [] \<longrightarrow>
        crashHistory (manualEntries rt xs s) =
          rev (drop (length xs - 100) (manual_created rt (clockReads s) ms))
        \<and> length (crashHistory (manualEntries rt xs s)) = min (length xs) 100
        \<and> (mono (Date_now rt) \<longrightarrow> newest_first (crashHistory (manualEntries rt xs s))))"
proof (intro conjI impI)
  show "length (crashHistory (simulateRounds rt n s)) \<le> 100"
    by (simp add: simulateRounds_eq)
  show "crashHistory (simulateRounds rt n s) =
       take 100 (map (\<lambda>j. round_entry rt (randomCalls s + 2 * j) (clockReads s + 2 * j) j) [0..<n]
                 @ crashHistory s)"
    by (simp add: simulateRounds_eq)
next
  assume a: "parseFloat rt (inputMultiplier s) = Num m \<and> 1 \<le> m \<and> m \<le> 100"
  then show "length (crashHistory (addManualCrash rt s)) \<le> 100"
    by (simp add: addManualCrash_accept)
  from a show "crashHistory (addManualCrash rt s) =
            take 100 (manual_entry rt (clockReads s) m # crashHistory s)"
    by (simp add: addManualCrash_accept)
next
  assume "map (parseFloat rt) xs = map Num ms \<and> (\<forall>v \<in> set ms. 1 \<le> v \<and> v \<le> 100)
        \<and> length (crashHistory s) \<le> 100"
  then show "crashHistory (manualEntries rt xs s) =
          take 100 (rev (manual_created rt (clockReads s) ms) @ crashHistory s)"
    using manualEntries_history [of rt xs ms s] by simp
next
  assume a: "map (parseFloat rt) xs = map Num ms \<and> (\<forall>v \<in> set ms. 1 \<le> v \<and> v \<le> 100)
        \<and> crashHistory s = []"
  then have len: "length ms = length xs"
    using map_eq_imp_length_eq by metis
  have h: "crashHistory (manualEntries rt xs s) = take 100 (rev (manual_created rt (clockReads s) ms))"
    using a manualEntries_history [of rt xs ms s] by simp
  show "crashHistory (manualEntries rt xs s) =
          rev (drop (length xs - 100) (manual_created rt (clockReads s) ms))"
    unfolding h by (simp add: take_rev_drop manual_created_length len)
  show "length (crashHistory (manualEntries rt xs s)) = min (length xs) 100"
    unfolding h by (simp add: manual_created_length len)
  show "newest_first (crashHistory (manualEntries rt xs s))" if "mono (Date_now rt)"
    unfolding h take_rev_drop using that by (rule manual_history_newest_first)
qed

text \<open>
  Batches of 50, 50 and 10 rounds on an empty history: of the first batch the rounds 0 to 39
  remain, and the rounds 40 to 49, which were generated last, are gone.
\<close>

lemma older_batch_loses_newest:
  assumes "crashHistory s0 = []"
  shows "crashHistory (simulateRounds rt 10 (simulateRounds rt 50 (simulateRounds rt 50 s0)))
     = map (\<lambda>j. round_entry rt (randomCalls s0 + 200 + 2 * j) (clockReads s0 + 200 + 2 * j) j) [0..<10]
       @ map (\<lambda>j. round_entry rt (randomCalls s0 + 100 + 2 * j) (clockReads s0 + 100 + 2 * j) j) [0..<50]
       @ map (\<lambda>j. round_entry rt (randomCalls s0 + 2 * j) (clockReads s0 + 2 * j) j) [0..<40]"
  using assms by (simp add: simulateRounds_eq take_map add.commute add.left_commute)

lemma toFixed2_manual_range:
  assumes "1 \<le> x" "x \<le> 100"
  shows "1 \<le> toFixed2 x \<and> toFixed2 x \<le> 100"
proof -
  have "\<lfloor>x * 100 + 1 / 2\<rfloor> \<le> 10000" using assms by (simp add: floor_le_iff)
  then have "toFixed2 x \<le> 100" using assms by (simp add: toFixed2_def)
  then show ?thesis using assms toFixed2_ge_1 by simp
qed

lemma handle_history_ok:
  assumes "\<forall>j. 0 \<le> Math_random rt j \<and> Math_random rt j < 1"
    and "history_ok (crashHistory s)"
  shows "history_ok (crashHistory (handle rt s e))"
proof (cases e)
  case (ChangeInput x)
  then show ?thesis using assms(2) by simp
next
  case AddCrash
  show ?thesis
  proof (cases "\<exists>m. parseFloat rt (inputMultiplier s) = Num m \<and> 1 \<le> m \<and> m \<le> 100")
    case True
    then obtain m where m: "parseFloat rt (inputMultiplier s) = Num m" "1 \<le> m" "m \<le> 100"
      by blast
    have "1 \<le> multiplier c \<and> multiplier c \<le> 100"
      if "c \<in> set (take 100 (manual_entry rt (clockReads s) m # crashHistory s))" for c
    proof -
      from that have "c \<in> set (manual_entry rt (clockReads s) m # crashHistory s)"
        by (rule in_set_takeD)
      then have "c = manual_entry rt (clockReads s) m \<or> c \<in> set (crashHistory s)"
        by simp
      then show ?thesis
        using assms(2) toFixed2_manual_range [OF m(2) m(3)]
        by (auto simp: history_ok_def manual_entry_def)
    qed
    then have "history_ok (take 100 (manual_entry rt (clockReads s) m # crashHistory s))"
      unfolding history_ok_def by (intro conjI ballI) simp_all
    then show ?thesis
      using AddCrash by (simp add: addManualCrash_accept [OF m])
  next
    case False
    then show ?thesis
      using AddCrash assms(2) by (simp add: addManualCrash_reject)
  qed
next
  case (Simulate n)
  let ?batch = "map (\<lambda>j. round_entry rt (randomCalls s + 2 * j) (clockReads s + 2 * j) j) [0..<n]"
  have "1 \<le> multiplier c \<and> multiplier c \<le> 100" if "c \<in> set (take 100 (?batch @ crashHistory s))" for c
  proof -
    from that have "c \<in> set (?batch @ crashHistory s)"
      by (rule in_set_takeD)
    then have "c \<in> set ?batch \<or> c \<in> set (crashHistory s)"
      by simp
    then show ?thesis
    proof
      assume "c \<in> set ?batch"
      then have "c \<in> set (fst (simulate_loop rt n 0 ([], randomCalls s, clockReads s)))"
        by (simp add: simulate_loop_eq)
      then have "1 \<le> multiplier c \<and> multiplier c \<le> 50"
        using assms(1) simulate_loop_stored_range by blast
      then show ?thesis by simp
    next
      assume "c \<in> set (crashHistory s)"
      then show ?thesis using assms(2) by (simp add: history_ok_def)
    qed
  qed
  then have "history_ok (take 100 (?batch @ crashHistory s))"
    unfolding history_ok_def by (intro conjI ballI) simp_all
  moreover have "crashHistory (simulateRounds rt n s) = take 100 (?batch @ crashHistory s)"
    by (simp add: simulateRounds_eq)
  ultimately show ?thesis
    using Simulate assms(2) by simp
next
  case ClearAll
  then show ?thesis by (simp add: history_ok_def)
next
  case SimulationTimeout
  then show ?thesis using assms(2) by simp
qed

lemma run_history_ok:
  assumes "\<forall>j. 0 \<le> Math_random rt j \<and> Math_random rt j < 1"
  shows "history_ok (crashHistory (run rt initial_state evs))"
proof -
  have "history_ok (crashHistory (foldl (handle rt) s evs))" if "history_ok (crashHistory s)" for s
    using that
  proof (induction evs arbitrary: s)
    case Nil
    then show ?case by simp
  next
    case (Cons e evs)
    then show ?case using handle_history_ok [OF assms] by simp
  qed
  moreover have "history_ok (crashHistory initial_state)"
    by (simp add: initial_state_def history_ok_def)
  ultimately show ?thesis
    unfolding run_def by blast
qed

section \<open>The statistics engine\<close>

lemma float_eps_bounds: "0 < float_eps" "float_eps \<le> 1 / 10 ^ 15"
  by (simp_all add: float_eps_def)

lemma float_tiny_bounds: "0 < float_tiny" "float_tiny \<le> 1 / 10 ^ 100"
  by (simp_all add: float_tiny_def)

lemma float_big_bound: "10 ^ 100 \<le> float_big"
  by (simp add: float_big_def)

lemma float_err_bounds: "0 < float_err" "float_err \<le> 1 / 1000000000000000"
  by (simp_all add: float_err_def float_eps_def float_tiny_def)

lemma accurate_exact: "accurate exact_arithmetic"
  using float_eps_bounds(1) float_tiny_bounds(1)
  by (auto simp: accurate_def exact_arithmetic_def power2_eq_square
      intro!: add_nonneg_nonneg mult_nonneg_nonneg less_imp_le)

lemma acc_bound:
  assumes "0 \<le> m" "m \<le> M" "1 \<le> M"
  shows "float_eps * m + float_tiny \<le> M * float_err"
proof -
  have "float_eps * m \<le> float_eps * M"
    using assms float_eps_bounds by (intro mult_left_mono) auto
  moreover have "float_tiny \<le> M * float_tiny"
    using assms(3) float_tiny_bounds(1) by simp
  ultimately show ?thesis by (simp add: float_err_def algebra_simps)
qed

lemma small_is_representable:
  assumes "\<bar>x\<bar> \<le> 10 ^ 100"
  shows "\<bar>x\<bar> \<le> float_big"
  using assms float_big_bound by linarith

lemma acc_add:
  assumes "accurate ar" "\<bar>x\<bar> \<le> 10 ^ 100" "\<bar>y\<bar> \<le> 10 ^ 100" "\<bar>x\<bar> + \<bar>y\<bar> \<le> M" "1 \<le> M"
  shows "\<bar>num_add ar x y - (x + y)\<bar> \<le> M * float_err"
proof -
  have "\<bar>num_add ar x y - (x + y)\<bar> \<le> float_eps * (\<bar>x\<bar> + \<bar>y\<bar>) + float_tiny"
    using assms(1) small_is_representable [OF assms(2)] small_is_representable [OF assms(3)]
    unfolding accurate_def by blast
  also have "\<dots> \<le> M * float_err"
    using assms(4,5) by (intro acc_bound) auto
  finally show ?thesis .
qed

lemma acc_add_nonneg:
  assumes "accurate ar" "0 \<le> x" "x \<le> 10 ^ 100" "0 \<le> y" "y \<le> 10 ^ 100"
  shows "0 \<le> num_add ar x y"
proof -
  have "\<bar>x\<bar> \<le> float_big" "\<bar>y\<bar> \<le> float_big"
    using assms float_big_bound by linarith+
  then show ?thesis
    using assms(1,2,4) unfolding accurate_def by blast
qed

lemma acc_sub:
  assumes "accurate ar" "\<bar>x\<bar> \<le> 10 ^ 100" "\<bar>y\<bar> \<le> 10 ^ 100" "\<bar>x\<bar> + \<bar>y\<bar> \<le> M" "1 \<le> M"
  shows "\<bar>num_sub ar x y - (x - y)\<bar> \<le> M * float_err"
proof -
  have "\<bar>num_sub ar x y - (x - y)\<bar> \<le> float_eps * (\<bar>x\<bar> + \<bar>y\<bar>) + float_tiny"
    using assms(1) small_is_representable [OF assms(2)] small_is_representable [OF assms(3)]
    unfolding accurate_def by blast
  also have "\<dots> \<le> M * float_err"
    using assms(4,5) by (intro acc_bound) auto
  finally show ?thesis .
qed

lemma acc_div:
  assumes "accurate ar" "\<bar>x\<bar> \<le> 10 ^ 100" "1 \<le> y" "y \<le> 10 ^ 100" "\<bar>x / y\<bar> \<le> M" "1 \<le> M"
  shows "\<bar>num_div ar x y - x / y\<bar> \<le> M * float_err"
proof -
  have "y \<le> float_big" using assms float_big_bound by linarith
  then have "\<bar>num_div ar x y - x / y\<bar> \<le> float_eps * \<bar>x / y\<bar> + float_tiny"
    using assms(1,3) small_is_representable [OF assms(2)]
    unfolding accurate_def by blast
  also have "\<dots> \<le> M * float_err"
    using assms(5,6) by (intro acc_bound) auto
  finally show ?thesis .
qed

lemma acc_div_nonneg:
  assumes "accurate ar" "0 \<le> x" "x \<le> 10 ^ 100" "1 \<le> y" "y \<le> 10 ^ 100"
  shows "0 \<le> num_div ar x y"
proof -
  have "\<bar>x\<bar> \<le> float_big" "y \<le> float_big"
    using assms float_big_bound by linarith+
  then show ?thesis
    using assms(1,2,4) unfolding accurate_def by blast
qed

lemma acc_pow:
  assumes "accurate ar" "\<bar>x\<bar> \<le> 10 ^ 100" "x ^ 2 \<le> M" "1 \<le> M"
  shows "\<bar>Math_pow ar x 2 - x ^ 2\<bar> \<le> M * float_err" "0 \<le> Math_pow ar x 2"
proof -
  have a: "\<bar>Math_pow ar x 2 - x ^ 2\<bar> \<le> float_eps * x ^ 2 + float_tiny \<and> 0 \<le> Math_pow ar x 2"
    using assms(1) small_is_representable [OF assms(2)]
    unfolding accurate_def by blast
  then have "\<bar>Math_pow ar x 2 - x ^ 2\<bar> \<le> float_eps * x ^ 2 + float_tiny" by simp
  also have "\<dots> \<le> M * float_err"
    using assms(3,4) by (intro acc_bound) auto
  finally show "\<bar>Math_pow ar x 2 - x ^ 2\<bar> \<le> M * float_err" .
  from a show "0 \<le> Math_pow ar x 2" by simp
qed

lemma acc_sqrt:
  assumes "accurate ar" "0 \<le> x" "x \<le> 10 ^ 100" "sqrt x \<le> M"
  shows "\<bar>Math_sqrt ar x - sqrt x\<bar> \<le> M * float_err"
proof -
  have "x \<le> float_big" using assms float_big_bound by linarith
  then have "\<bar>Math_sqrt ar x - sqrt x\<bar> \<le> float_eps * sqrt x"
    using assms(1,2) unfolding accurate_def by blast
  also have "\<dots> \<le> float_eps * M"
    using assms float_eps_bounds by (intro mult_left_mono) auto
  also have "\<dots> \<le> float_err * M"
  proof -
    have "0 \<le> M" using assms(4) real_sqrt_ge_zero [OF assms(2)] by linarith
    moreover have "float_eps \<le> float_err"
      using float_tiny_bounds(1) by (simp add: float_err_def)
    ultimately show ?thesis by (intro mult_right_mono) auto
  qed
  finally show ?thesis by (simp add: mult.commute)
qed

lemma acc_sqrt_nonneg:
  assumes "accurate ar" "0 \<le> x" "x \<le> 10 ^ 100"
  shows "0 \<le> Math_sqrt ar x"
proof -
  have "x \<le> float_big" using assms float_big_bound by linarith
  then have "\<bar>Math_sqrt ar x - sqrt x\<bar> \<le> float_eps * sqrt x"
    using assms(1,2) unfolding accurate_def by blast
  moreover have "float_eps * sqrt x \<le> 1 * sqrt x"
    using float_eps_bounds assms(2) by (intro mult_right_mono) auto
  ultimately show ?thesis by linarith
qed

lemma sum_list_bounds:
  assumes "\<forall>v \<in> set vs. 0 \<le> v \<and> v \<le> c"
  shows "0 \<le> sum_list vs \<and> sum_list vs \<le> real (length vs) * c"
  using assms by (induction vs) (auto simp: algebra_simps)

lemma fold_add_error:
  assumes acc: "accurate ar" and c: "1 \<le> c" "c \<le> 100000"
  shows "length vs \<le> 100 \<Longrightarrow> \<forall>v \<in> set vs. 0 \<le> v \<and> v \<le> c \<Longrightarrow>
         0 \<le> foldl (num_add ar) 0 vs
         \<and> \<bar>foldl (num_add ar) 0 vs - sum_list vs\<bar> \<le> real (length vs) * ((101 * c + 1) * float_err)"
proof (induction vs rule: rev_induct)
  case Nil
  then show ?case by simp
next
  case (snoc v vs)
  define t where "t = (101 * c + 1) * float_err"
  define k where "k = real (length vs)"
  define S where "S = sum_list vs"
  define F where "F = foldl (num_add ar) 0 vs"
  have k: "0 \<le> k" "k \<le> 99" using snoc.prems(1) by (auto simp: k_def)
  have v: "0 \<le> v" "v \<le> c" using snoc.prems(2) by auto
  have ih: "0 \<le> F" "\<bar>F - S\<bar> \<le> k * t"
    using snoc.IH snoc.prems by (auto simp: F_def S_def k_def t_def)
  have S: "0 \<le> S" "S \<le> k * c"
    using sum_list_bounds [of vs c] snoc.prems(2) by (auto simp: S_def k_def)
  have t: "0 \<le> t" "t \<le> 1 / 100"
  proof -
    have "0 \<le> 101 * c + 1" using c by simp
    then show "0 \<le> t" using float_err_bounds(1) by (simp add: t_def)
    have "(101 * c + 1) * float_err \<le> 10100001 * (1 / 1000000000000000)"
      using c float_err_bounds by (intro mult_mono) auto
    then show "t \<le> 1 / 100" by (simp add: t_def)
  qed
  have kt: "k * t \<le> 1"
  proof -
    have "k * t \<le> 99 * (1 / 100)" using k t by (intro mult_mono) auto
    then show ?thesis by simp
  qed
  have kc: "k * c \<le> 99 * c" using k c by (intro mult_right_mono) auto
  have Fb: "F \<le> 99 * c + 1" using ih S kt kc by linarith
  have "\<bar>num_add ar F v - (F + v)\<bar> \<le> (101 * c + 1) * float_err"
  proof (rule acc_add [OF acc])
    show "\<bar>F\<bar> \<le> 10 ^ 100" using ih(1) Fb c by simp
    show "\<bar>v\<bar> \<le> 10 ^ 100" using v c by simp
    show "\<bar>F\<bar> + \<bar>v\<bar> \<le> 101 * c + 1" using ih(1) Fb v c by simp
    show "1 \<le> 101 * c + 1" using c by simp
  qed
  then have step: "\<bar>num_add ar F v - (F + v)\<bar> \<le> t" by (simp add: t_def)
  have nn: "0 \<le> num_add ar F v"
    using acc ih(1) Fb v c by (intro acc_add_nonneg) auto
  have "\<bar>num_add ar F v - (S + v)\<bar> \<le> t + k * t"
    using step ih(2) by linarith
  then have "\<bar>num_add ar F v - (S + v)\<bar> \<le> (k + 1) * t"
    by (simp add: algebra_simps)
  then show ?case
    using nn by (simp add: F_def S_def k_def t_def algebra_simps)
qed

lemma sum_list_abs_diff:
  assumes "\<forall>x \<in> set xs. \<bar>f x - g x\<bar> \<le> e"
  shows "\<bar>sum_list (map f xs) - sum_list (map g xs)\<bar> \<le> real (length xs) * e"
  using assms
proof (induction xs)
  case Nil
  then show ?case by simp
next
  case (Cons x xs)
  then have "\<bar>f x - g x\<bar> \<le> e"
    and "\<bar>sum_list (map f xs) - sum_list (map g xs)\<bar> \<le> real (length xs) * e"
    by auto
  then show ?case by (simp add: algebra_simps)
qed

lemma mean_bounds:
  assumes "xs \<noteq> []" "\<forall>x \<in> set xs. 0 \<le> x \<and> x \<le> 100"
  shows "0 \<le> mean xs" "mean xs \<le> 100"
proof -
  have n: "0 < real (length xs)" using assms(1) by simp
  have s: "0 \<le> sum_list xs" "sum_list xs \<le> real (length xs) * 100"
    using sum_list_bounds [OF assms(2)] by auto
  show "0 \<le> mean xs" using s n by (simp add: mean_def)
  show "mean xs \<le> 100" using s n by (simp add: mean_def field_simps)
qed

lemma float_mean_error:
  assumes acc: "accurate ar" and ne: "xs \<noteq> []" and len: "length xs \<le> 100"
    and dom: "\<forall>x \<in> set xs. 0 \<le> x \<and> x \<le> 100"
  shows "\<bar>float_mean ar xs - mean xs\<bar> \<le> 10202 * float_err"
proof -
  define n where "n = real (length xs)"
  define F where "F = foldl (num_add ar) 0 xs"
  define S where "S = sum_list xs"
  have n: "1 \<le> n" "n \<le> 100"
    using ne len by (cases xs; simp add: n_def)+
  have e: "0 < float_err" "float_err \<le> 1 / 1000000000000000"
    by (rule float_err_bounds)+
  have F: "0 \<le> F" "\<bar>F - S\<bar> \<le> n * (10101 * float_err)"
    using fold_add_error [OF acc _ _ len dom] by (auto simp: F_def S_def n_def)
  have S: "0 \<le> S" "S \<le> n * 100"
    using sum_list_bounds [OF dom] by (auto simp: S_def n_def)
  have nt: "n * (10101 * float_err) \<le> n * 1"
    using n e by (intro mult_left_mono) auto
  have Fn: "F \<le> n * 101" using F S nt by linarith
  have q: "\<bar>F / n\<bar> \<le> 101"
    using F(1) Fn n by (simp add: field_simps)
  have d1: "\<bar>num_div ar F n - F / n\<bar> \<le> 101 * float_err"
  proof (rule acc_div [OF acc])
    show "\<bar>F\<bar> \<le> 10 ^ 100" using F(1) Fn n by simp
    show "1 \<le> n" by (rule n)
    show "n \<le> 10 ^ 100" using n by simp
    show "\<bar>F / n\<bar> \<le> 101" by (rule q)
    show "(1::real) \<le> 101" by simp
  qed
  have "\<bar>F / n - S / n\<bar> = \<bar>F - S\<bar> / n"
    using n by (simp add: diff_divide_distrib [symmetric])
  also have "\<dots> \<le> 10101 * float_err"
    using F(2) n by (simp add: field_simps)
  finally have d2: "\<bar>F / n - S / n\<bar> \<le> 10101 * float_err" .
  have "\<bar>num_div ar F n - S / n\<bar> \<le> 10202 * float_err"
    using d1 d2 by linarith
  then show ?thesis
    by (simp add: float_mean_def mean_def F_def S_def n_def)
qed

lemma float_variance_error:
  assumes acc: "accurate ar" and ne: "xs \<noteq> []" and len: "length xs \<le> 100"
    and dom: "\<forall>x \<in> set xs. 0 \<le> x \<and> x \<le> 100"
  shows "0 \<le> float_variance ar xs"
    and "float_variance ar xs \<le> 10002"
    and "\<bar>float_variance ar xs - sum_list (map (\<lambda>x. (x - mean xs) ^ 2) xs) / real (length xs)\<bar>
           \<le> 4 / 1000000000"
proof -
  define n where "n = real (length xs)"
  define a where "a = float_mean ar xs"
  define \<mu> where "\<mu> = mean xs"
  define ps where "ps = map (\<lambda>val. Math_pow ar (num_sub ar val a) 2) xs"
  define Q where "Q = sum_list (map (\<lambda>x. (x - \<mu>) ^ 2) xs)"
  define G where "G = foldl (num_add ar) 0 ps"
  have n: "1 \<le> n" "n \<le> 100"
    using ne len by (cases xs; simp add: n_def)+
  have mu: "0 \<le> \<mu>" "\<mu> \<le> 100"
    using mean_bounds [OF ne dom] by (auto simp: \<mu>_def)
  have e: "0 < float_err" "float_err \<le> 1 / 1000000000000000"
    by (rule float_err_bounds)+
  have a: "\<bar>a - \<mu>\<bar> \<le> 10202 * float_err"
    using float_mean_error [OF acc ne len dom] by (simp add: a_def \<mu>_def)
  have a_abs: "\<bar>a\<bar> \<le> 101" using a mu e by linarith
  have elem: "0 \<le> Math_pow ar (num_sub ar x a) 2
      \<and> Math_pow ar (num_sub ar x a) 2 \<le> 10001
      \<and> \<bar>Math_pow ar (num_sub ar x a) 2 - (x - \<mu>) ^ 2\<bar> \<le> 2101204 * float_err"
    if x: "x \<in> set xs" for x
  proof -
    define d where "d = x - \<mu>"
    define d' where "d' = num_sub ar x a"
    have x01: "0 \<le> x" "x \<le> 100" using dom x by auto
    have d: "\<bar>d\<bar> \<le> 100" using x01 mu unfolding d_def by linarith
    have "\<bar>d' - (x - a)\<bar> \<le> 201 * float_err"
      unfolding d'_def
    proof (rule acc_sub [OF acc])
      show "\<bar>x\<bar> \<le> 10 ^ 100" using x01 by simp
      show "\<bar>a\<bar> \<le> 10 ^ 100" using a_abs by simp
      show "\<bar>x\<bar> + \<bar>a\<bar> \<le> 201" using x01 a_abs by simp
      show "(1::real) \<le> 201" by simp
    qed
    then have dd: "\<bar>d' - d\<bar> \<le> 10403 * float_err"
      using a unfolding d_def by linarith
    have d'_abs: "\<bar>d'\<bar> \<le> 101" using dd d e by linarith
    have sq: "d' ^ 2 \<le> 10201"
    proof -
      have "\<bar>d'\<bar> ^ 2 \<le> 101 ^ 2" using d'_abs by (intro power_mono) auto
      then show ?thesis by simp
    qed
    have p: "\<bar>Math_pow ar d' 2 - d' ^ 2\<bar> \<le> 10201 * float_err" "0 \<le> Math_pow ar d' 2"
      using acc_pow [OF acc _ sq] d'_abs by auto
    have "d' ^ 2 - d ^ 2 = (d' - d) * (d' + d)"
      by (simp add: power2_eq_square algebra_simps)
    then have "\<bar>d' ^ 2 - d ^ 2\<bar> = \<bar>d' - d\<bar> * \<bar>d' + d\<bar>"
      by (simp add: abs_mult)
    also have "\<dots> \<le> (10403 * float_err) * 201"
      using dd d d'_abs e by (intro mult_mono) auto
    finally have dsq: "\<bar>d' ^ 2 - d ^ 2\<bar> \<le> 2091003 * float_err" by simp
    have pe: "\<bar>Math_pow ar d' 2 - d ^ 2\<bar> \<le> 2101204 * float_err"
      using p(1) dsq by linarith
    have "d ^ 2 \<le> 10000"
    proof -
      have "\<bar>d\<bar> ^ 2 \<le> 100 ^ 2" using d by (intro power_mono) auto
      then show ?thesis by simp
    qed
    then have "Math_pow ar d' 2 \<le> 10001" using pe e by linarith
    then show ?thesis using p(2) pe by (simp add: d_def d'_def)
  qed
  have ps_dom: "\<forall>v \<in> set ps. 0 \<le> v \<and> v \<le> 10001"
    using elem by (auto simp: ps_def)
  have len_ps: "length ps \<le> 100" using len by (simp add: ps_def)
  have G: "0 \<le> G" "\<bar>G - sum_list ps\<bar> \<le> n * (1010102 * float_err)"
    using fold_add_error [OF acc _ _ len_ps ps_dom] by (auto simp: G_def n_def ps_def)
  have "\<bar>sum_list (map (\<lambda>val. Math_pow ar (num_sub ar val a) 2) xs)
        - sum_list (map (\<lambda>x. (x - \<mu>) ^ 2) xs)\<bar> \<le> real (length xs) * (2101204 * float_err)"
    using elem by (intro sum_list_abs_diff) auto
  then have PQ: "\<bar>sum_list ps - Q\<bar> \<le> n * (2101204 * float_err)"
    by (simp add: ps_def Q_def n_def)
  have GQ: "\<bar>G - Q\<bar> \<le> n * (3111306 * float_err)"
  proof -
    have "\<bar>G - Q\<bar> \<le> n * (1010102 * float_err) + n * (2101204 * float_err)"
      using G(2) PQ by linarith
    then show ?thesis by (simp add: algebra_simps)
  qed
  have Qb: "0 \<le> Q" "Q \<le> n * 10000"
  proof -
    have "\<forall>v \<in> set (map (\<lambda>x. (x - \<mu>) ^ 2) xs). 0 \<le> v \<and> v \<le> 10000"
    proof
      fix v assume "v \<in> set (map (\<lambda>x. (x - \<mu>) ^ 2) xs)"
      then obtain x where x: "x \<in> set xs" and v: "v = (x - \<mu>) ^ 2" by auto
      have "0 \<le> x \<and> x \<le> 100" using dom x by simp
      then have "\<bar>x - \<mu>\<bar> \<le> 100" using mu by linarith
      then have "\<bar>x - \<mu>\<bar> ^ 2 \<le> 100 ^ 2" by (intro power_mono) auto
      then show "0 \<le> v \<and> v \<le> 10000" by (simp add: v)
    qed
    from sum_list_bounds [OF this] show "0 \<le> Q" "Q \<le> n * 10000"
      by (auto simp: Q_def n_def)
  qed
  have Gn: "G \<le> n * 10001"
  proof -
    have "n * (3111306 * float_err) \<le> n * 1"
      using n e by (intro mult_left_mono) auto
    then show ?thesis using GQ Qb by linarith
  qed
  have q: "\<bar>G / n\<bar> \<le> 10001" using G(1) Gn n by (simp add: field_simps)
  have d1: "\<bar>num_div ar G n - G / n\<bar> \<le> 10001 * float_err"
  proof (rule acc_div [OF acc])
    show "\<bar>G\<bar> \<le> 10 ^ 100" using G(1) Gn n by simp
    show "1 \<le> n" by (rule n)
    show "n \<le> 10 ^ 100" using n by simp
    show "\<bar>G / n\<bar> \<le> 10001" by (rule q)
    show "(1::real) \<le> 10001" by simp
  qed
  have "\<bar>G / n - Q / n\<bar> = \<bar>G - Q\<bar> / n"
    using n by (simp add: diff_divide_distrib [symmetric])
  also have "\<dots> \<le> 3111306 * float_err"
    using GQ n by (simp add: field_simps)
  finally have d2: "\<bar>G / n - Q / n\<bar> \<le> 3111306 * float_err" .
  have fv: "float_variance ar xs = num_div ar G n"
    by (simp add: float_variance_def G_def ps_def a_def n_def)
  have Gsmall: "G \<le> 10 ^ 100" using Gn n by simp
  show "0 \<le> float_variance ar xs"
    unfolding fv using acc G(1) Gsmall n by (intro acc_div_nonneg) auto
  have Qn: "Q / n \<le> 10000" using Qb n by (simp add: field_simps)
  show "float_variance ar xs \<le> 10002"
    unfolding fv using d1 d2 Qn e by linarith
  have "\<bar>num_div ar G n - Q / n\<bar> \<le> 4 / 1000000000"
    using d1 d2 e by linarith
  then show "\<bar>float_variance ar xs - sum_list (map (\<lambda>x. (x - mean xs) ^ 2) xs) / real (length xs)\<bar>
           \<le> 4 / 1000000000"
    by (simp add: fv Q_def \<mu>_def n_def)
qed

lemma sqrt_diff_le:
  assumes "0 \<le> a" "0 \<le> b"
  shows "\<bar>sqrt a - sqrt b\<bar> \<le> sqrt \<bar>a - b\<bar>"
proof -
  have *: "sqrt p - sqrt q \<le> sqrt \<bar>p - q\<bar>" if "0 \<le> p" "0 \<le> q" for p q :: real
  proof (cases "q \<le> p")
    case True
    have "sqrt p = sqrt (q + (p - q))" by simp
    also have "\<dots> \<le> sqrt q + sqrt (p - q)"
      using that True by (intro sqrt_add_le_add_sqrt) auto
    finally show ?thesis using True by simp
  next
    case False
    then have "sqrt p \<le> sqrt q" by simp
    moreover have "0 \<le> sqrt \<bar>p - q\<bar>" by simp
    ultimately show ?thesis by linarith
  qed
  have "sqrt a - sqrt b \<le> sqrt \<bar>a - b\<bar>" using * [OF assms] .
  moreover have "sqrt b - sqrt a \<le> sqrt \<bar>a - b\<bar>"
    using * [OF assms(2) assms(1)] by (simp add: abs_minus_commute)
  ultimately show ?thesis by linarith
qed

lemma float_stddev_error:
  assumes acc: "accurate ar" and ne: "xs \<noteq> []" and len: "length xs \<le> 100"
    and dom: "\<forall>x \<in> set xs. 0 \<le> x \<and> x \<le> 100"
  shows "0 \<le> float_stddev ar xs"
    and "float_stddev ar xs \<le> 102"
    and "\<bar>float_stddev ar xs - population_stddev xs\<bar> \<le> 1 / 10000"
proof -
  define V where "V = float_variance ar xs"
  define W where "W = sum_list (map (\<lambda>x. (x - mean xs) ^ 2) xs) / real (length xs)"
  have e: "0 < float_err" "float_err \<le> 1 / 1000000000000000"
    by (rule float_err_bounds)+
  have V: "0 \<le> V" "V \<le> 10002" "\<bar>V - W\<bar> \<le> 4 / 1000000000"
    using float_variance_error [OF acc ne len dom] by (auto simp: V_def W_def)
  have W: "0 \<le> W"
    unfolding W_def by (intro divide_nonneg_nonneg sum_list_nonneg) auto
  have sV: "sqrt V \<le> 101"
    using V by (intro real_le_lsqrt) auto
  have s0: "0 \<le> sqrt V" using V by simp
  have a1: "\<bar>Math_sqrt ar V - sqrt V\<bar> \<le> 101 * float_err"
    using acc V sV by (intro acc_sqrt) auto
  have "sqrt \<bar>V - W\<bar> \<le> 7 / 100000"
    using V(3) by (intro real_le_lsqrt) (auto simp: power2_eq_square)
  then have a2: "\<bar>sqrt V - sqrt W\<bar> \<le> 7 / 100000"
    using sqrt_diff_le [OF V(1) W] by linarith
  have "0 \<le> Math_sqrt ar V"
    using acc V by (intro acc_sqrt_nonneg) auto
  then show "0 \<le> float_stddev ar xs"
    by (simp add: float_stddev_def V_def)
  have fs: "float_stddev ar xs = Math_sqrt ar V"
    by (simp add: float_stddev_def V_def)
  have ps: "population_stddev xs = sqrt W"
    by (simp add: population_stddev_def W_def)
  show "float_stddev ar xs \<le> 102"
    unfolding fs using a1 sV e by linarith
  show "\<bar>float_stddev ar xs - population_stddev xs\<bar> \<le> 1 / 10000"
    unfolding fs ps using a1 a2 e by linarith
qed

lemma toFixed2_close:
  assumes "0 \<le> x" "x < 10 ^ 21"
  shows "\<bar>toFixed2 x - x\<bar> \<le> 1 / 200"
proof -
  have t: "toFixed2 x = real_of_int \<lfloor>x * 100 + 1 / 2\<rfloor> / 100"
    using assms by (simp add: toFixed2_def)
  define f where "f = real_of_int \<lfloor>x * 100 + 1 / 2\<rfloor>"
  have "f \<le> x * 100 + 1 / 2" and "x * 100 + 1 / 2 < f + 1"
    unfolding f_def by linarith+
  then have "\<bar>f / 100 - x\<bar> \<le> 1 / 200" by linarith
  then show ?thesis unfolding t f_def .
qed

lemma toFixed2_two_decimals:
  assumes "\<bar>x\<bar> < 10 ^ 21"
  shows "\<exists>k::int. toFixed2 x = real_of_int k / 100"
proof (cases "x < 0")
  case True
  then have "toFixed2 x = real_of_int (- \<lfloor>(- x) * 100 + 1 / 2\<rfloor>) / 100"
    using assms by (simp add: toFixed2_def)
  then show ?thesis by blast
next
  case False
  then have "toFixed2 x = real_of_int \<lfloor>x * 100 + 1 / 2\<rfloor> / 100"
    using assms by (simp add: toFixed2_def)
  then show ?thesis by blast
qed

lemma toFixed2_nonneg:
  assumes "0 \<le> x"
  shows "0 \<le> toFixed2 x"
  using assms by (simp add: toFixed2_def)

lemma toFixed2_zero_iff:
  assumes "0 \<le> x"
  shows "toFixed2 x = 0 \<longleftrightarrow> x < 1 / 200"
proof (cases "10 ^ 21 \<le> \<bar>x\<bar>")
  case True
  then show ?thesis using assms by (simp add: toFixed2_def)
next
  case False
  have "\<lfloor>x * 100 + 1 / 2\<rfloor> = 0 \<longleftrightarrow> x < 1 / 200"
    using assms by (auto simp: floor_eq_iff)
  then show ?thesis using False assms by (simp add: toFixed2_def)
qed




lemma calculateStatistics_Some:
  assumes "history \<noteq> []"
  shows "calculateStatistics ar history =
    Some \<lparr>averageMultiplier = toFixed2 (float_mean ar (map multiplier history)),
          medianMultiplier = toFixed2 (float_median ar (sort (map multiplier history))),
          maxMultiplier = foldl max (hd (map multiplier history)) (tl (map multiplier history)),
          minMultiplier = foldl min (hd (map multiplier history)) (tl (map multiplier history)),
          volatility = toFixed2 (float_stddev ar (map multiplier history)),
          crashesBelow2x = length (filter (\<lambda>m. m < 2) (map multiplier history)),
          crashesAbove5x = length (filter (\<lambda>m. m \<ge> 5) (map multiplier history)),
          crashesAbove10x = length (filter (\<lambda>m. m \<ge> 10) (map multiplier history))\<rparr>"
proof -
  have c: "(length history mod 2 = 0) = even (length history)"
    by presburger
  have f: "foldl (\<lambda>acc val. num_add ar acc (Math_pow ar (num_sub ar val v) 2)) 0 xs
         = foldl (num_add ar) 0 (map (\<lambda>val. Math_pow ar (num_sub ar val v) 2) xs)" for v xs
    by (simp add: foldl_map)
  show ?thesis
    using assms
    by (simp add: calculateStatistics_def Let_def c f float_mean_def float_variance_def
        float_stddev_def float_median_def del: foldl_map map_map)
qed

lemma sum_list_constant:
  "\<forall>x \<in> set xs. x = c \<Longrightarrow> sum_list xs = real (length xs) * c"
  by (induction xs) (auto simp: algebra_simps)

lemma population_stddev_nonneg: "0 \<le> population_stddev xs"
proof -
  have "0 \<le> sum_list (map (\<lambda>x. (x - mean xs) ^ 2) xs)"
    by (rule sum_list_nonneg) auto
  then show ?thesis
    by (simp add: population_stddev_def)
qed

lemma population_stddev_zero_iff:
  assumes "xs \<noteq> []"
  shows "population_stddev xs = 0 \<longleftrightarrow> (\<forall>x \<in> set xs. \<forall>y \<in> set xs. x = y)"
proof -
  have n: "0 < real (length xs)" using assms by simp
  have "population_stddev xs = 0 \<longleftrightarrow> sum_list (map (\<lambda>x. (x - mean xs) ^ 2) xs) = 0"
    using n by (simp add: population_stddev_def)
  also have "\<dots> \<longleftrightarrow> (\<forall>x \<in> set xs. x = mean xs)"
    by (subst sum_list_nonneg_eq_0_iff) auto
  also have "\<dots> \<longleftrightarrow> (\<forall>x \<in> set xs. \<forall>y \<in> set xs. x = y)"
  proof
    assume "\<forall>x \<in> set xs. x = mean xs"
    then show "\<forall>x \<in> set xs. \<forall>y \<in> set xs. x = y" by metis
  next
    assume same: "\<forall>x \<in> set xs. \<forall>y \<in> set xs. x = y"
    obtain c where c: "c \<in> set xs" using assms by (cases xs) auto
    with same have all: "\<forall>x \<in> set xs. x = c" by blast
    then have "mean xs = c"
      using n by (simp add: mean_def sum_list_constant)
    with all show "\<forall>x \<in> set xs. x = mean xs" by simp
  qed
  finally show ?thesis .
qed

lemma history_ok_multipliers:
  assumes "history_ok history"
  shows "length (map multiplier history) \<le> 100"
    and "\<forall>x \<in> set (map multiplier history). 0 \<le> x \<and> x \<le> 100"
  using assms by (auto simp: history_ok_def intro: order_trans [of 0 1])

lemma volatility_rounding:
  assumes acc: "accurate ar" and ne: "history \<noteq> []" and ok: "history_ok history"
  shows "0 \<le> toFixed2 (float_stddev ar (map multiplier history))"
    and "\<exists>k::int. toFixed2 (float_stddev ar (map multiplier history)) = real_of_int k / 100"
    and "\<bar>float_stddev ar (map multiplier history) - population_stddev (map multiplier history)\<bar>
           \<le> 1 / 10000"
    and "\<bar>toFixed2 (float_stddev ar (map multiplier history))
           - population_stddev (map multiplier history)\<bar> \<le> 51 / 10000"
    and "population_stddev (map multiplier history) < 49 / 10000 \<longrightarrow>
           toFixed2 (float_stddev ar (map multiplier history)) = 0"
    and "51 / 10000 \<le> population_stddev (map multiplier history) \<longrightarrow>
           0 < toFixed2 (float_stddev ar (map multiplier history))"
proof -
  define xs where "xs = map multiplier history"
  define f where "f = float_stddev ar xs"
  define p where "p = population_stddev xs"
  have xs: "xs \<noteq> []" "length xs \<le> 100" "\<forall>x \<in> set xs. 0 \<le> x \<and> x \<le> 100"
    using ne history_ok_multipliers [OF ok] by (auto simp: xs_def)
  have f: "0 \<le> f" "f \<le> 102" "\<bar>f - p\<bar> \<le> 1 / 10000"
    using float_stddev_error [OF acc xs] by (auto simp: f_def p_def)
  have c: "\<bar>toFixed2 f - f\<bar> \<le> 1 / 200"
    using f by (intro toFixed2_close) auto
  have z: "toFixed2 f = 0 \<longleftrightarrow> f < 1 / 200"
    using f(1) by (rule toFixed2_zero_iff)
  have nn: "0 \<le> toFixed2 f" using f(1) by (rule toFixed2_nonneg)
  have "\<bar>f\<bar> < 10 ^ 21" using f by simp
  then have k: "\<exists>k::int. toFixed2 f = real_of_int k / 100"
    by (rule toFixed2_two_decimals)
  have small: "toFixed2 f = 0" if "p < 49 / 10000"
  proof -
    have "f < 1 / 200" using that f(3) by linarith
    then show ?thesis using z by simp
  qed
  have large: "0 < toFixed2 f" if "51 / 10000 \<le> p"
  proof -
    have "\<not> f < 1 / 200" using that f(3) by linarith
    then have "toFixed2 f \<noteq> 0" using z by simp
    then show ?thesis using nn by simp
  qed
  have d: "\<bar>toFixed2 f - p\<bar> \<le> 51 / 10000" using c f(3) by linarith
  show "0 \<le> toFixed2 (float_stddev ar (map multiplier history))"
    using nn by (simp add: f_def xs_def)
  show "\<exists>k::int. toFixed2 (float_stddev ar (map multiplier history)) = real_of_int k / 100"
    using k by (simp add: f_def xs_def)
  show "\<bar>float_stddev ar (map multiplier history) - population_stddev (map multiplier history)\<bar>
           \<le> 1 / 10000"
    using f(3) by (simp add: f_def p_def xs_def)
  show "\<bar>toFixed2 (float_stddev ar (map multiplier history))
           - population_stddev (map multiplier history)\<bar> \<le> 51 / 10000"
    using d by (simp add: f_def p_def xs_def)
  show "population_stddev (map multiplier history) < 49 / 10000 \<longrightarrow>
           toFixed2 (float_stddev ar (map multiplier history)) = 0"
    using small by (simp add: f_def p_def xs_def)
  show "51 / 10000 \<le> population_stddev (map multiplier history) \<longrightarrow>
           0 < toFixed2 (float_stddev ar (map multiplier history))"
    using large by (simp add: f_def p_def xs_def)
qed

lemma close_multipliers_deviation:
  "population_stddev [1.00, 1.00, 1.01] < 49 / 10000"
proof -
  have "population_stddev [1.00, 1.00, 1.01] = sqrt (1 / 45000)"
    by (simp add: population_stddev_def mean_def power2_eq_square)
  moreover have "sqrt (1 / 45000) < 49 / 10000"
    by (rule real_less_lsqrt) (simp_all add: power2_eq_square)
  ultimately show ?thesis by simp
qed

lemma volatility_zero_for_close_multipliers:
  assumes "accurate ar"
  shows "map_option volatility
     (calculateStatistics ar
        [\<lparr>id_num = 1, multiplier = 1.00, timestamp = 10\<rparr>,
         \<lparr>id_num = 2, multiplier = 1.00, timestamp = 20\<rparr>,
         \<lparr>id_num = 3, multiplier = 1.01, timestamp = 30\<rparr>]) = Some 0"
proof -
  let ?h = "[\<lparr>id_num = 1, multiplier = 1.00, timestamp = 10\<rparr>,
             \<lparr>id_num = 2, multiplier = 1.00, timestamp = 20\<rparr>,
             \<lparr>id_num = 3, multiplier = 1.01, timestamp = 30\<rparr>]"
  have ne: "?h \<noteq> []" by simp
  have ok: "history_ok ?h" by (simp add: history_ok_def)
  have "population_stddev (map multiplier ?h) < 49 / 10000"
    using close_multipliers_deviation by simp
  then have "toFixed2 (float_stddev ar (map multiplier ?h)) = 0"
    using volatility_rounding(5) [OF assms ne ok] by blast
  then show ?thesis
    by (simp add: calculateStatistics_Some)
qed





lemma distributionData_ranges:
  "map snd (distributionData history) =
     map (\<lambda>r. length (filter (\<lambda>c. in_range (multiplier c) r) history)) histogram_ranges"
  by (simp add: distributionData_def histogram_ranges_def)

lemma count_ranges:
  "length (filter (in_range m) histogram_ranges) = (if 1 \<le> m then 1 else 0)"
  by (simp add: histogram_ranges_def)

lemma distribution_total:
  "sum_list (map snd (distributionData history))
     = length (filter (\<lambda>c. 1 \<le> multiplier c) history)"
proof (induction history)
  case Nil
  then show ?case by (simp add: distributionData_def)
next
  case (Cons c history)
  have "sum_list (map snd (distributionData (c # history)))
      = sum_list (map snd (distributionData history))
        + length (filter (in_range (multiplier c)) histogram_ranges)"
    by (simp add: distributionData_def histogram_ranges_def)
  then show ?case using Cons.IH by (simp add: count_ranges)
qed

text \<open>
  C5. The six counts of \<^verbatim>\<open>distributionData\<close> are the counts of the six half-open ranges
  \<open>[1.0,1.5)\<close>, \<open>[1.5,2.0)\<close>, \<open>[2.0,3.0)\<close>, \<open>[3.0,5.0)\<close>, \<open>[5.0,10.0)\<close>, \<open>[10.0,\<infinity>)\<close>, and
  they add up to the number of outcomes whose multiplier is at least \<open>1.0\<close>. So for outcomes
  of the data model, whose multipliers are at least \<open>1.0\<close>, every outcome lies in exactly one
  range and the six counts add up to the number of outcomes, also when multipliers are
  \<open>1.5\<close>, \<open>2.0\<close>, \<open>3.0\<close>, \<open>5.0\<close> or \<open>10.0\<close>.
\<close>

theorem distribution_counts_partition:
  "map snd (distributionData history) =
           map (\<lambda>r. length (filter (\<lambda>c. in_range (multiplier c) r) history)) histogram_ranges
   \<and> sum_list (map snd (distributionData history))
       = length (filter (\<lambda>c. 1 \<le> multiplier c) history)
   \<and> ((\<forall>c \<in> set history. 1 \<le> multiplier c) \<longrightarrow>
        (\<forall>c \<in> set history. length (filter (in_range (multiplier c)) histogram_ranges) = 1)
        \<and> sum_list (map snd (distributionData history)) = length history)"
proof (intro conjI impI ballI)
  show "map snd (distributionData history) =
           map (\<lambda>r. length (filter (\<lambda>c. in_range (multiplier c) r) history)) histogram_ranges"
    by (rule distributionData_ranges)
  show "sum_list (map snd (distributionData history))
       = length (filter (\<lambda>c. 1 \<le> multiplier c) history)"
    by (rule distribution_total)
next
  fix c
  assume "\<forall>c \<in> set history. 1 \<le> multiplier c" and "c \<in> set history"
  then show "length (filter (in_range (multiplier c)) histogram_ranges) = 1"
    by (simp add: count_ranges)
next
  assume "\<forall>c \<in> set history. 1 \<le> multiplier c"
  then have "filter (\<lambda>c. 1 \<le> multiplier c) history = history"
    by (simp add: filter_id_conv)
  then show "sum_list (map snd (distributionData history)) = length history"
    using distribution_total [of history] by simp
qed

theorem distribution_counts_partition_witness:
  "map snd (distributionData
      [\<lparr>id_num = 1, multiplier = 1.5, timestamp = 10\<rparr>,
       \<lparr>id_num = 2, multiplier = 2.0, timestamp = 20\<rparr>,
       \<lparr>id_num = 3, multiplier = 3.0, timestamp = 30\<rparr>,
       \<lparr>id_num = 4, multiplier = 5.0, timestamp = 40\<rparr>,
       \<lparr>id_num = 5, multiplier = 10.0, timestamp = 50\<rparr>,
       \<lparr>id_num = 6, multiplier = 1.0, timestamp = 60\<rparr>]) = [1, 1, 1, 1, 1, 1]
   \<and> sum_list (map snd (distributionData
      [\<lparr>id_num = 1, multiplier = 1.5, timestamp = 10\<rparr>,
       \<lparr>id_num = 2, multiplier = 2.0, timestamp = 20\<rparr>,
       \<lparr>id_num = 3, multiplier = 3.0, timestamp = 30\<rparr>,
       \<lparr>id_num = 4, multiplier = 5.0, timestamp = 40\<rparr>,
       \<lparr>id_num = 5, multiplier = 10.0, timestamp = 50\<rparr>,
       \<lparr>id_num = 6, multiplier = 1.0, timestamp = 60\<rparr>])) = 6"
  using distribution_counts_partition
    [of "[\<lparr>id_num = 1, multiplier = 1.5, timestamp = 10\<rparr>,
          \<lparr>id_num = 2, multiplier = 2.0, timestamp = 20\<rparr>,
          \<lparr>id_num = 3, multiplier = 3.0, timestamp = 30\<rparr>,
          \<lparr>id_num = 4, multiplier = 5.0, timestamp = 40\<rparr>,
          \<lparr>id_num = 5, multiplier = 10.0, timestamp = 50\<rparr>,
          \<lparr>id_num = 6, multiplier = 1.0, timestamp = 60\<rparr>]"]
  by (simp add: histogram_ranges_def)

text \<open>
  The multipliers \<open>1.00, 1.00, 1.01\<close> are not identical; their standard deviation, about
  \<open>0.0047\<close>, is rounded to a volatility of \<open>0\<close>, in exact arithmetic as in every accurate
  arithmetic.
\<close>

theorem volatility_zero_for_different_multipliers:
  "map_option volatility
     (calculateStatistics exact_arithmetic
        [\<lparr>id_num = 1, multiplier = 1.00, timestamp = 10\<rparr>,
         \<lparr>id_num = 2, multiplier = 1.00, timestamp = 20\<rparr>,
         \<lparr>id_num = 3, multiplier = 1.01, timestamp = 30\<rparr>]) = Some 0"
  using accurate_exact by (rule volatility_zero_for_close_multipliers)

text \<open>
  C8. With an accurate arithmetic and a non-empty history of the data model, the
  volatility that \<^verbatim>\<open>calculateStatistics\<close> returns is at least \<open>0\<close>, and it is \<open>0\<close> when all
  multipliers are identical. It is \<open>0\<close> as well whenever the population standard deviation
  is below \<open>0.0049\<close>, and it is positive whenever that deviation is at least \<open>0.0051\<close>.
\<close>

theorem volatility_nonneg_and_zero:
  "accurate ar \<and> history \<noteq> [] \<and> history_ok history \<longrightarrow>
     (\<exists>st. calculateStatistics ar history = Some st
        \<and> 0 \<le> volatility st
        \<and> ((\<forall>a \<in> set history. \<forall>b \<in> set history. multiplier a = multiplier b) \<longrightarrow>
             volatility st = 0)
        \<and> (population_stddev (map multiplier history) < 49 / 10000 \<longrightarrow> volatility st = 0)
        \<and> (51 / 10000 \<le> population_stddev (map multiplier history) \<longrightarrow> 0 < volatility st))"
proof
  assume h: "accurate ar \<and> history \<noteq> [] \<and> history_ok history"
  then have acc: "accurate ar" and ne: "history \<noteq> []" and ok: "history_ok history"
    by auto
  define st where "st = the (calculateStatistics ar history)"
  have st: "calculateStatistics ar history = Some st"
    and v: "volatility st = toFixed2 (float_stddev ar (map multiplier history))"
    using ne by (simp_all add: st_def calculateStatistics_Some)
  have small: "population_stddev (map multiplier history) < 49 / 10000 \<longrightarrow> volatility st = 0"
    unfolding v by (rule volatility_rounding(5) [OF acc ne ok])
  have same: "volatility st = 0"
    if "\<forall>a \<in> set history. \<forall>b \<in> set history. multiplier a = multiplier b"
  proof -
    have mne: "map multiplier history \<noteq> []" using ne by simp
    have "\<forall>x \<in> set (map multiplier history). \<forall>y \<in> set (map multiplier history). x = y"
    proof (intro ballI)
      fix x y
      assume "x \<in> set (map multiplier history)" "y \<in> set (map multiplier history)"
      then obtain a b where ab: "a \<in> set history" "b \<in> set history"
        and xy: "x = multiplier a" "y = multiplier b"
        by auto
      from that ab have "multiplier a = multiplier b" by blast
      then show "x = y" by (simp only: xy)
    qed
    then have "population_stddev (map multiplier history) = 0"
      by (rule iffD2 [OF population_stddev_zero_iff [OF mne]])
    then have "population_stddev (map multiplier history) < 49 / 10000"
      by simp
    then show ?thesis by (rule mp [OF small])
  qed
  show "\<exists>st. calculateStatistics ar history = Some st
        \<and> 0 \<le> volatility st
        \<and> ((\<forall>a \<in> set history. \<forall>b \<in> set history. multiplier a = multiplier b) \<longrightarrow>
             volatility st = 0)
        \<and> (population_stddev (map multiplier history) < 49 / 10000 \<longrightarrow> volatility st = 0)
        \<and> (51 / 10000 \<le> population_stddev (map multiplier history) \<longrightarrow> 0 < volatility st)"
  proof (intro exI [of _ st] conjI)
    show "calculateStatistics ar history = Some st" by (rule st)
    show "0 \<le> volatility st"
      unfolding v by (rule volatility_rounding(1) [OF acc ne ok])
    show "(\<forall>a \<in> set history. \<forall>b \<in> set history. multiplier a = multiplier b) \<longrightarrow>
             volatility st = 0"
      using same by blast
    show "population_stddev (map multiplier history) < 49 / 10000 \<longrightarrow> volatility st = 0"
      by (rule small)
    show "51 / 10000 \<le> population_stddev (map multiplier history) \<longrightarrow> 0 < volatility st"
      unfolding v by (rule volatility_rounding(6) [OF acc ne ok])
  qed
qed

theorem volatility_nonneg_and_zero_witness:
  "map_option volatility
     (calculateStatistics exact_arithmetic
        [\<lparr>id_num = 1, multiplier = 2.5, timestamp = 10\<rparr>,
         \<lparr>id_num = 2, multiplier = 2.5, timestamp = 20\<rparr>]) = Some 0"
proof -
  let ?h = "[\<lparr>id_num = 1, multiplier = 2.5, timestamp = 10\<rparr>,
             \<lparr>id_num = 2, multiplier = 2.5, timestamp = 20\<rparr>]"
  have h: "accurate exact_arithmetic \<and> ?h \<noteq> [] \<and> history_ok ?h"
    using accurate_exact by (simp add: history_ok_def)
  have same: "\<forall>a \<in> set ?h. \<forall>b \<in> set ?h. multiplier a = multiplier b" by simp
  from volatility_nonneg_and_zero [where history = ?h and ar = exact_arithmetic,
      rule_format, OF h]
  obtain st where st: "calculateStatistics exact_arithmetic ?h = Some st"
    and "(\<forall>a \<in> set ?h. \<forall>b \<in> set ?h. multiplier a = multiplier b) \<longrightarrow> volatility st = 0"
    by blast
  with same have "volatility st = 0" by blast
  then show ?thesis by (simp only: st option.map)
qed

end
